theory Spec2Isabelle
  imports Main "HOL-Library.AList"
begin

chapter \<open>SimpleWebSocketAPI: commands and replies over a WebSocket\<close>

text \<open>
  A shallow embedding of the class \<^verbatim>\<open>SimpleWebSocketAPI\<close> and of the part of its host it
  acts on (promises, timers, the socket, the event emitter it extends), followed by what
  the specification's claims C1 to C10 come to on it. The repository holds three
  revisions of the class; the one embedded is the latest, with
  \<^verbatim>\<open>SimpleWebSocketAPI_Error\<close>, \<^verbatim>\<open>isClosed\<close> and \<^verbatim>\<open>destroyOnClose\<close>, which is the one the
  specification describes.
\<close>

section \<open>Values\<close>

text \<open>
  What \<^verbatim>\<open>JSON.parse\<close> can return is a \<open>json\<close>; the values the program handles
  beyond those (\<^verbatim>\<open>undefined\<close>, binary data, error objects, the reply helper handed
  to a command listener, a function given to the emitter) are the other constructors of
  \<open>jsval\<close>. Numbers are the integers: the message ids, codes and durations of the program
  are integers, and an IEEE double is exact on them below \<open>2 ^ 53\<close>.
\<close>

datatype json =
    JNull
  | JBool bool
  | JNum int
  | JStr string
  | JArr "json list"
  | JObj "(string \<times> json) list"

datatype bin_kind = ArrayBuffer | ArrayBufferView | BlobData

text \<open>The functions subscribed to the emitter: those of the user, told apart by a
  number, and the closure \<^verbatim>\<open>changeWebSocket\<close> gives to \<^verbatim>\<open>once('close', ...)\<close>.\<close>

datatype listener = User_listener nat | Close_hook

datatype jsval =
    Undefined
  | Json json
  | Binary bin_kind "nat list"
  | ErrorObj string string string
  | ReplyFunc jsval
  | Callback listener

text \<open>\<open>ErrorObj name message code\<close> is an \<^verbatim>\<open>Error\<close> object; \<open>ReplyFunc id\<close> is the
  closure \<^verbatim>\<open>#replyFunc(id)\<close> returns; \<open>Callback l\<close> is a subscribed function as a value.
  A thrown value is the \<open>Inl\<close> of a result.\<close>

type_synonym 'a outcome = "jsval + 'a"

definition digit :: "nat \<Rightarrow> char" where
  "digit n = ''0123456789'' ! n"

fun show_nat :: "nat \<Rightarrow> string" where
  "show_nat n = (if n < 10 then [digit n] else show_nat (n div 10) @ [digit (n mod 10)])"

declare show_nat.simps [simp del]

definition show_int :: "int \<Rightarrow> string" where
  "show_int i = (if i < 0 then CHR ''-'' # show_nat (nat (- i)) else show_nat (nat i))"

text \<open>String conversion of a parsed value, as string concatenation and the lookup of an
  event name perform it: an array joins its elements with commas (\<^verbatim>\<open>null\<close> elements
  as the empty string), an object is \<^verbatim>\<open>[object Object]\<close>.\<close>

fun json_to_string :: "json \<Rightarrow> string"
  and json_join :: "json list \<Rightarrow> string"
  and json_elem :: "json \<Rightarrow> string" where
  "json_to_string JNull = ''null''"
| "json_to_string (JBool b) = (if b then ''true'' else ''false'')"
| "json_to_string (JNum n) = show_int n"
| "json_to_string (JStr s) = s"
| "json_to_string (JArr xs) = json_join xs"
| "json_to_string (JObj kvs) = ''[object Object]''"
| "json_join [] = []"
| "json_join [x] = json_elem x"
| "json_join (x # y # ys) = json_elem x @ '','' @ json_join (y # ys)"
| "json_elem JNull = []"
| "json_elem (JBool b) = json_to_string (JBool b)"
| "json_elem (JNum n) = json_to_string (JNum n)"
| "json_elem (JStr s) = json_to_string (JStr s)"
| "json_elem (JArr xs) = json_to_string (JArr xs)"
| "json_elem (JObj kvs) = json_to_string (JObj kvs)"

text \<open>Property lookup \<^verbatim>\<open>v.k\<close> on a parsed value: only an object has own fields; a
  missing field is \<^verbatim>\<open>undefined\<close>, here \<open>None\<close>.\<close>

definition field :: "string \<Rightarrow> json \<Rightarrow> json option" where
  "field k v = (case v of JObj kvs \<Rightarrow> map_of kvs k | _ \<Rightarrow> None)"

definition val :: "json option \<Rightarrow> jsval" where
  "val x = (case x of None \<Rightarrow> Undefined | Some j \<Rightarrow> Json j)"

text \<open>\<^verbatim>\<open>const {cmd, payload, id} = JSON.parse(data)\<close>: destructuring \<^verbatim>\<open>null\<close> throws a
  TypeError, every other parsed value yields three (possibly undefined) fields.\<close>

definition type_error :: "string \<Rightarrow> jsval" where
  "type_error msg = ErrorObj ''TypeError'' msg []"

definition destructure :: "json \<Rightarrow> (json option \<times> json option \<times> json option) outcome" where
  "destructure v = (if v = JNull
     then Inl (type_error ''Cannot destructure property cmd of null.'')
     else Inr (field ''cmd'' v, field ''payload'' v, field ''id'' v))"

definition starts_with :: "string \<Rightarrow> string \<Rightarrow> bool" where
  "starts_with p s = (take (length p) s = p)"

definition is_binary :: "jsval \<Rightarrow> bool" where
  "is_binary v = (case v of Binary k bs \<Rightarrow> True | _ \<Rightarrow> False)"

section \<open>The host: promises, timers, the transport, the event emitter\<close>

datatype host = Node | Browser

datatype pstate = Pending | Resolved jsval | Rejected jsval

datatype tstatus = Armed | Cleared | Fired

text \<open>The program calls \<^verbatim>\<open>setTimeout\<close> in two shapes: with a promise's \<^verbatim>\<open>reject\<close>
  and a number of milliseconds (in \<^verbatim>\<open>send\<close>), and with the number \<^verbatim>\<open>0\<close> first and
  \<^verbatim>\<open>this.emit.bind(this)\<close> second (in \<^verbatim>\<open>changeWebSocket\<close>).\<close>

datatype timer_handler = Reject_promise nat | Not_a_function json

datatype timer_delay = Millis nat | Bound_emit

record timer =
  t_status :: tstatus
  t_handler :: timer_handler
  t_delay :: timer_delay
  t_args :: "jsval list"

text \<open>The two closures \<^verbatim>\<open>send\<close> stores under an id share the timer they clear and the
  promise they settle.\<close>

record awaiting =
  a_timer :: nat
  a_promise :: nat

definition OPEN :: nat where
  "OPEN = 1"

definition CLOSING :: nat where
  "CLOSING = 2"

definition CLOSED :: nat where
  "CLOSED = 3"

record transport =
  readyState :: nat
  ws_binaryType :: "string option"
  ws_listeners :: "(string \<times> bool) list"

datatype frame = Sent_json "(string \<times> jsval) list" | Sent_raw jsval

text \<open>The endpoint with the part of the host it acts on. A subscription is an event
  name, the number of its wrapper when it was made with \<^verbatim>\<open>once\<close>, and the function;
  \<open>wrappers\<close> has one flag for each wrapper \<^verbatim>\<open>once\<close> has made, telling whether it has
  fired. \<open>sent\<close> is every argument of \<^verbatim>\<open>ws.send\<close> in order (for a text frame the object
  given to \<^verbatim>\<open>JSON.stringify\<close>), \<open>delivered\<close> every call of a function of the user by the
  emitter, \<open>console\<close> the first argument of every call of the debug sink.\<close>

type_synonym subscription = "string \<times> nat option \<times> listener"

record endpoint =
  host :: host
  debug :: bool
  ws :: "transport option"
  binaryType :: string
  msgId :: nat
  awaitingReply :: "(nat \<times> awaiting) list"
  awaitingBinaryReply :: "awaiting option"
  destroyOnClose :: bool
  destroyed :: bool
  listeners :: "subscription list"
  wrappers :: "bool list"
  promises :: "pstate list"
  timers :: "timer list"
  sent :: "frame list"
  delivered :: "(nat \<times> string \<times> jsval list) list"
  console :: "string list"

definition dbg :: "string \<Rightarrow> endpoint \<Rightarrow> endpoint" where
  "dbg text st = (if debug st then st\<lparr>console := console st @ [text]\<rparr> else st)"

definition ws_send :: "frame \<Rightarrow> endpoint \<Rightarrow> endpoint" where
  "ws_send f st = st\<lparr>sent := sent st @ [f]\<rparr>"

definition isOpen :: "endpoint \<Rightarrow> bool" where
  "isOpen st = (case ws st of None \<Rightarrow> False | Some t \<Rightarrow> readyState t = OPEN)"

definition isClosed :: "endpoint \<Rightarrow> bool" where
  "isClosed st = (case ws st of None \<Rightarrow> False | Some t \<Rightarrow> readyState t = CLOSED)"

subsection \<open>Promises and timers\<close>

definition new_promise :: "endpoint \<Rightarrow> nat \<times> endpoint" where
  "new_promise st = (length (promises st), st\<lparr>promises := promises st @ [Pending]\<rparr>)"

text \<open>Settling a promise that is already settled does nothing.\<close>

definition settle :: "nat \<Rightarrow> pstate \<Rightarrow> endpoint \<Rightarrow> endpoint" where
  "settle p v st = (if p < length (promises st) \<and> promises st ! p = Pending
     then st\<lparr>promises := (promises st)[p := v]\<rparr> else st)"

definition add_timer :: "timer_handler \<Rightarrow> timer_delay \<Rightarrow> jsval list \<Rightarrow> endpoint \<Rightarrow> nat \<times> endpoint" where
  "add_timer h d args st = (length (timers st),
     st\<lparr>timers := timers st @ [\<lparr>t_status = Armed, t_handler = h, t_delay = d, t_args = args\<rparr>]\<rparr>)"

text \<open>\<^verbatim>\<open>setTimeout(handler, delay, ...args)\<close>. Given a handler that is not a function,
  Node throws \<^verbatim>\<open>ERR_INVALID_ARG_TYPE\<close>; a browser takes the handler's string
  conversion as script source to run when the timer fires.\<close>

fun received :: "json \<Rightarrow> string" where
  "received JNull = ''null''"
| "received (JBool b) = ''type boolean ('' @ json_to_string (JBool b) @ '')''"
| "received (JNum n) = ''type number ('' @ show_int n @ '')''"
| "received (JStr s) = ''type string ('' @ [CHR 0x27] @ s @ [CHR 0x27] @ '')''"
| "received (JArr xs) = ''an instance of Array''"
| "received (JObj kvs) = ''an instance of Object''"

definition callback_type_error :: "json \<Rightarrow> jsval" where
  "callback_type_error v = ErrorObj ''TypeError''
     (''The '' @ [CHR 0x22] @ ''callback'' @ [CHR 0x22] @
      '' argument must be of type function. Received '' @ received v)
     ''ERR_INVALID_ARG_TYPE''"

definition setTimeout :: "timer_handler \<Rightarrow> timer_delay \<Rightarrow> jsval list \<Rightarrow> endpoint \<Rightarrow> nat outcome \<times> endpoint" where
  "setTimeout h d args st = (case h of
      Reject_promise p \<Rightarrow> (let (k, st1) = add_timer h d args st in (Inr k, st1))
    | Not_a_function v \<Rightarrow> (case host st of
          Node \<Rightarrow> (Inl (callback_type_error v), st)
        | Browser \<Rightarrow> (let (k, st1) = add_timer h d args st in (Inr k, st1))))"

definition clearTimeout :: "nat \<Rightarrow> endpoint \<Rightarrow> endpoint" where
  "clearTimeout k st = (if k < length (timers st) \<and> t_status (timers st ! k) = Armed
     then st\<lparr>timers := (timers st)[k := (timers st ! k)\<lparr>t_status := Cleared\<rparr>]\<rparr> else st)"

text \<open>The host runs an armed timer: a function handler is called with the extra
  arguments; the source text of a number is an expression statement, which does
  nothing.\<close>

definition fire_timer :: "nat \<Rightarrow> endpoint \<Rightarrow> endpoint" where
  "fire_timer k st = (if k < length (timers st) \<and> t_status (timers st ! k) = Armed
     then (let t = timers st ! k;
               st1 = st\<lparr>timers := (timers st)[k := t\<lparr>t_status := Fired\<rparr>]\<rparr>
           in case t_handler t of
                Reject_promise p \<Rightarrow>
                  settle p (Rejected (case t_args t of [] \<Rightarrow> Undefined | e # es \<Rightarrow> e)) st1
              | Not_a_function v \<Rightarrow> st1)
     else st)"

text \<open>The closures stored by \<^verbatim>\<open>send\<close>: \<^verbatim>\<open>clearTimeout(timeout)\<close>, then the promise's
  own \<^verbatim>\<open>resolve\<close> or \<^verbatim>\<open>reject\<close>.\<close>

definition call_resolve :: "awaiting \<Rightarrow> jsval \<Rightarrow> endpoint \<Rightarrow> endpoint" where
  "call_resolve a v st = settle (a_promise a) (Resolved v) (clearTimeout (a_timer a) st)"

definition call_reject :: "awaiting \<Rightarrow> jsval \<Rightarrow> endpoint \<Rightarrow> endpoint" where
  "call_reject a v st = settle (a_promise a) (Rejected v) (clearTimeout (a_timer a) st)"

subsection \<open>The transport\<close>

definition wsEvents :: "string list" where
  "wsEvents = [''open'', ''error'', ''close'', ''message'']"

definition removeEventListener :: "string \<Rightarrow> transport \<Rightarrow> transport" where
  "removeEventListener ev t = t\<lparr>ws_listeners := filter (\<lambda>e. fst e \<noteq> ev) (ws_listeners t)\<rparr>"

definition addEventListener :: "string \<Rightarrow> bool \<Rightarrow> transport \<Rightarrow> transport" where
  "addEventListener ev once t = (if ev \<in> fst ` set (ws_listeners t) then t
     else t\<lparr>ws_listeners := ws_listeners t @ [(ev, once)]\<rparr>)"

text \<open>\<^verbatim>\<open>ws.close()\<close> moves a connecting or open socket to the closing state.\<close>

definition ws_close :: "transport \<Rightarrow> transport" where
  "ws_close t = (if readyState t = CLOSING \<or> readyState t = CLOSED then t
     else t\<lparr>readyState := CLOSING\<rparr>)"

subsection \<open>The event emitter\<close>

text \<open>The emitter the class extends (Node's \<^verbatim>\<open>events\<close>) keeps the subscriptions of an
  event in registration order. A function of the user is opaque: calling it is recorded
  in \<open>delivered\<close>, it is taken to return, and what it then asks of the endpoint is a
  later operation. The emitter publishes two events of its own:
  \<^verbatim>\<open>newListener\<close>, before it adds a subscription, which is part of \<open>on_event\<close> and
  \<open>once_event\<close> below; and \<^verbatim>\<open>removeListener\<close>, after it has removed one, which is left
  out: no call of a \<^verbatim>\<open>removeListener\<close> subscriber made for a removal is in \<open>delivered\<close>.\<close>

definition removeAllListeners :: "endpoint \<Rightarrow> endpoint" where
  "removeAllListeners st = st\<lparr>listeners := []\<rparr>"

definition subscribers :: "string \<Rightarrow> endpoint \<Rightarrow> subscription list" where
  "subscribers name st = filter (\<lambda>e. fst e = name) (listeners st)"

section \<open>The endpoint\<close>

text \<open>\<^verbatim>\<open>#removeWsListeners\<close>: one \<^verbatim>\<open>removeEventListener\<close> for each of the four entries
  of \<^verbatim>\<open>#wsListeners\<close>, when a transport is bound.\<close>

definition removeWsListeners :: "endpoint \<Rightarrow> endpoint" where
  "removeWsListeners st = (case ws st of
      None \<Rightarrow> st
    | Some t \<Rightarrow> st\<lparr>ws := Some (fold removeEventListener wsEvents t)\<rparr>)"

text \<open>The body of the close hook, with the \<^verbatim>\<open>destroy\<close> it calls as a parameter \<open>d\<close>:
  \<^verbatim>\<open>destroy\<close> itself emits \<^verbatim>\<open>close\<close>, and the hook then calls \<^verbatim>\<open>destroy\<close> again.\<close>

definition close_hook :: "(endpoint \<Rightarrow> endpoint) \<Rightarrow> endpoint \<Rightarrow> endpoint" where
  "close_hook d st = (let st1 = removeWsListeners st in
     if destroyOnClose st1 then d st1 else st1)"

text \<open>Calling a subscribed function with the arguments of an event.\<close>

definition invoke :: "(endpoint \<Rightarrow> endpoint) \<Rightarrow> string \<Rightarrow> jsval list \<Rightarrow> listener \<Rightarrow>
    endpoint \<Rightarrow> endpoint" where
  "invoke d name args l st = (case l of
      User_listener k \<Rightarrow> st\<lparr>delivered := delivered st @ [(k, name, args)]\<rparr>
    | Close_hook \<Rightarrow> close_hook d st)"

text \<open>One subscription of the snapshot \<^verbatim>\<open>emit\<close> iterates over. What \<^verbatim>\<open>on\<close> has
  registered is the function itself. What \<^verbatim>\<open>once\<close> has registered is a wrapper with a
  flag: \<^verbatim>\<open>if (!this.fired) { this.target.removeListener(this.type, this.wrapFn);
  this.fired = true; return this.listener.apply(this.target, arguments) }\<close>. A wrapper
  that an emit further in has run already does nothing.\<close>

definition has_fired :: "nat \<Rightarrow> endpoint \<Rightarrow> bool" where
  "has_fired w st = (w < length (wrappers st) \<and> wrappers st ! w)"

definition call_listener :: "(endpoint \<Rightarrow> endpoint) \<Rightarrow> string \<Rightarrow> jsval list \<Rightarrow> subscription \<Rightarrow>
    endpoint \<Rightarrow> endpoint" where
  "call_listener d name args e st = (case fst (snd e) of
      None \<Rightarrow> invoke d name args (snd (snd e)) st
    | Some w \<Rightarrow>
        if has_fired w st then st
        else invoke d name args (snd (snd e))
               (st\<lparr>listeners := remove1 e (listeners st), wrappers := (wrappers st)[w := True]\<rparr>))"

text \<open>\<^verbatim>\<open>emit(name, ...args)\<close>, as Node's \<^verbatim>\<open>events\<close> documents it: the name is a
  property key, the result is whether the event had subscribers, and an \<^verbatim>\<open>'error'\<close>
  event without one is thrown instead (the first argument when it is an error object).\<close>

definition emit_with :: "(endpoint \<Rightarrow> endpoint) \<Rightarrow> json \<Rightarrow> jsval list \<Rightarrow> endpoint \<Rightarrow>
    bool outcome \<times> endpoint" where
  "emit_with d name args st =
     (let key = json_to_string name; ls = subscribers key st in
      if name = JStr ''error'' \<and> ls = []
      then (Inl (case args of
                   ErrorObj n m c # rest \<Rightarrow> ErrorObj n m c
                 | _ \<Rightarrow> ErrorObj ''Error'' ''Unhandled error.'' ''ERR_UNHANDLED_ERROR''), st)
      else (Inr (ls \<noteq> []), fold (call_listener d key args) ls st))"

definition destroy_event :: jsval where
  "destroy_event = Json (JObj [(''code'', JNum 4000),
     (''reason'', JStr ''SimpleWebSocketAPI destroy call''), (''wasClean'', JBool True)])"

text \<open>\<^verbatim>\<open>destroy()\<close>. The flag is set before \<^verbatim>\<open>close\<close> is emitted and nothing clears
  it, so the \<^verbatim>\<open>this.destroy()\<close> of a close hook that runs during this emit returns at
  its first line: the hook is given the identity (see \<open>destroy_reentrant\<close> and
  \<open>emit_while_destroyed\<close> below).\<close>

definition destroy :: "endpoint \<Rightarrow> endpoint" where
  "destroy st = (if destroyed st then st
     else (let st1 = st\<lparr>destroyed := True\<rparr>;
               st2 = st1\<lparr>awaitingReply := []\<rparr>;
               st3 = (case ws st2 of
                        None \<Rightarrow> st2
                      | Some t \<Rightarrow>
                          if readyState t \<noteq> CLOSED
                          then snd (emit_with (\<lambda>s. s) (JStr ''close'') [destroy_event]
                                 (st2\<lparr>ws := Some (ws_close t)\<rparr>))
                          else st2)
           in removeAllListeners st3))"

definition emit :: "json \<Rightarrow> jsval list \<Rightarrow> endpoint \<Rightarrow> bool outcome \<times> endpoint" where
  "emit name args st = emit_with destroy name args st"

text \<open>\<^verbatim>\<open>on(name, listener)\<close> and \<^verbatim>\<open>once(name, listener)\<close>: when \<^verbatim>\<open>newListener\<close> has
  subscribers, the emitter first publishes \<^verbatim>\<open>emit('newListener', name, listener)\<close>,
  then it appends the subscription. \<^verbatim>\<open>once\<close> makes its wrapper before that, and the
  function published is the one it wraps.\<close>

definition newListener :: "string \<Rightarrow> listener \<Rightarrow> endpoint \<Rightarrow> endpoint" where
  "newListener name l st = (if subscribers ''newListener'' st = [] then st
     else snd (emit (JStr ''newListener'') [Json (JStr name), Callback l] st))"

definition on_event :: "string \<Rightarrow> listener \<Rightarrow> endpoint \<Rightarrow> endpoint" where
  "on_event name l st = (let st1 = newListener name l st
     in st1\<lparr>listeners := listeners st1 @ [(name, None, l)]\<rparr>)"

definition once_event :: "string \<Rightarrow> listener \<Rightarrow> endpoint \<Rightarrow> endpoint" where
  "once_event name l st =
     (let w = length (wrappers st);
          st1 = st\<lparr>wrappers := wrappers st @ [False]\<rparr>;
          st2 = newListener name l st1
      in st2\<lparr>listeners := listeners st2 @ [(name, Some w, l)]\<rparr>)"

definition closed_event :: jsval where
  "closed_event = Json (JObj [(''code'', JNum 4001), (''reason'', JStr ''Socket already closed.'')])"

text \<open>A call of a function of the user with one of the two notifications
  \<^verbatim>\<open>changeWebSocket\<close> means to publish: \<^verbatim>\<open>emit('close', {code: 4001, ...})\<close> or
  \<^verbatim>\<open>emit('open')\<close>.\<close>

definition bind_notification :: "nat \<times> string \<times> jsval list \<Rightarrow> bool" where
  "bind_notification e = ((fst (snd e) = ''close'' \<and> snd (snd e) = [closed_event]) \<or>
     (fst (snd e) = ''open'' \<and> snd (snd e) = []))"

text \<open>\<^verbatim>\<open>changeWebSocket(newWebSocket)\<close>. Both notifications are meant for the next tick,
  and both calls of \<^verbatim>\<open>setTimeout\<close> give \<^verbatim>\<open>0\<close> as the handler and the bound
  \<^verbatim>\<open>emit\<close> as the delay.\<close>

definition changeWebSocket :: "transport \<Rightarrow> endpoint \<Rightarrow> unit outcome \<times> endpoint" where
  "changeWebSocket newWebSocket st =
     (if destroyed st then (Inr (), st)
      else (let st1 = removeWsListeners st;
                st2 = once_event ''close'' Close_hook st1;
                st3 = st2\<lparr>ws := Some newWebSocket\<rparr>
            in if isClosed st3
               then (case setTimeout (Not_a_function (JNum 0)) Bound_emit
                            [Json (JStr ''close''), closed_event] st3 of
                       (Inl e, st4) \<Rightarrow> (Inl e, st4)
                     | (Inr k, st4) \<Rightarrow> (Inr (), st4))
               else (let t1 = newWebSocket\<lparr>ws_binaryType := Some (binaryType st3)\<rparr>;
                         t2 = fold (\<lambda>ev t. addEventListener ev (ev \<noteq> ''message'') t) wsEvents t1;
                         st5 = st3\<lparr>ws := Some t2\<rparr>
                     in if isOpen st5
                        then (case setTimeout (Not_a_function (JNum 0)) Bound_emit
                                     [Json (JStr ''open'')] st5 of
                                (Inl e, st6) \<Rightarrow> (Inl e, st6)
                              | (Inr k, st6) \<Rightarrow> (Inr (), st6))
                        else (Inr (), st5))))"

text \<open>The constructor: the private fields' initial values, the options with their
  defaults (the binary type by host), then \<^verbatim>\<open>if (ws) this.changeWebSocket(ws)\<close>. The
  JSON replacer is handed to \<^verbatim>\<open>JSON.stringify\<close> only and is not part of the model.\<close>

definition new_endpoint :: "host \<Rightarrow> bool \<Rightarrow> string option \<Rightarrow> bool \<Rightarrow> endpoint" where
  "new_endpoint h dbg_on bt doc =
     \<lparr>host = h, debug = dbg_on, ws = None,
      binaryType = (case bt of Some b \<Rightarrow> b
                    | None \<Rightarrow> (case h of Node \<Rightarrow> ''nodebuffer'' | Browser \<Rightarrow> ''arraybuffer'')),
      msgId = 0, awaitingReply = [], awaitingBinaryReply = None,
      destroyOnClose = doc, destroyed = False, listeners = [], wrappers = [],
      promises = [], timers = [], sent = [], delivered = [], console = []\<rparr>"

definition constructor :: "host \<Rightarrow> transport option \<Rightarrow> bool \<Rightarrow> string option \<Rightarrow> bool \<Rightarrow>
    unit outcome \<times> endpoint" where
  "constructor h w dbg_on bt doc = (case w of
      None \<Rightarrow> (Inr (), new_endpoint h dbg_on bt doc)
    | Some t \<Rightarrow> changeWebSocket t (new_endpoint h dbg_on bt doc))"

subsection \<open>Sending a command\<close>

definition api_error :: "string \<Rightarrow> string \<Rightarrow> jsval" where
  "api_error msg code = ErrorObj ''SimpleWebSocketAPI_Error'' msg code"

definition reserved :: "string list" where
  "reserved = [''open'', ''close'', ''error'', ''newListener'', ''removeListener'']"

definition timeout_error :: "string \<Rightarrow> nat \<Rightarrow> jsval" where
  "timeout_error cmd ms = api_error
     (''A reply for '' @ [CHR 0x22] @ cmd @ [CHR 0x22] @
      '' was not received within the replyTimeout period of '' @ show_nat ms @ '' ms.'')
     ''REPLY_TIMEOUT''"

definition request :: "string \<Rightarrow> jsval \<Rightarrow> nat \<Rightarrow> frame" where
  "request cmd payload n =
     Sent_json [(''cmd'', Json (JStr cmd)), (''payload'', payload), (''id'', Json (JNum (int n)))]"

text \<open>\<^verbatim>\<open>send(cmd, payload, replyTimeout = 2000)\<close> returns \<^verbatim>\<open>undefined\<close> (\<open>None\<close>) or
  a promise. The executor of the promise runs inside \<^verbatim>\<open>new Promise\<close>: it arms the
  timer and stores the two closures under the id.\<close>

definition send :: "jsval \<Rightarrow> jsval \<Rightarrow> nat option \<Rightarrow> endpoint \<Rightarrow> nat option outcome \<times> endpoint" where
  "send cmd payload replyTimeout st =
     (if destroyed st \<or> \<not> isOpen st then (Inr None, st)
      else case cmd of
          Json (JStr c) \<Rightarrow>
            if starts_with ''int:'' c
            then (Inl (api_error (''Only internal commands can start with '' @ [CHR 0x22] @
                    ''int:'' @ [CHR 0x22] @ ''.'') ''INVALID_PARAMETER''), st)
            else if c \<in> set reserved
            then (Inl (api_error (''A command can not be named '' @ c @
                    '' because that's an event emitted by this class.'')
                    ''INVALID_PARAMETER''), st)
            else (let ms = (case replyTimeout of None \<Rightarrow> 2000 | Some n \<Rightarrow> n);
                      n = msgId st;
                      st1 = st\<lparr>msgId := msgId st + 1\<rparr>;
                      st2 = dbg ''outgoing'' st1;
                      st3 = ws_send (request c payload n) st2;
                      (p, st4) = new_promise st3
                  in case setTimeout (Reject_promise p) (Millis ms) [timeout_error c ms] st4 of
                       (Inl e, st5) \<Rightarrow> (Inl e, st5)
                     | (Inr k, st5) \<Rightarrow> (Inr (Some p),
                         st5\<lparr>awaitingReply :=
                           AList.update n \<lparr>a_timer = k, a_promise = p\<rparr> (awaitingReply st5)\<rparr>))
        | _ \<Rightarrow> (Inl (api_error ''cmd must be a string.'' ''INVALID_PARAMETER''), st))"

subsection \<open>Replying\<close>

definition reply_frame :: "bool \<Rightarrow> jsval \<Rightarrow> jsval \<Rightarrow> frame" where
  "reply_frame isError payload ident =
     Sent_json [(''cmd'', Json (JStr (if isError then ''int:errorReply'' else ''int:reply''))),
                (''payload'', payload), (''id'', ident)]"

definition marker_frame :: "jsval \<Rightarrow> frame" where
  "marker_frame ident = Sent_json [(''cmd'', Json (JStr ''int:binaryReply'')), (''id'', ident)]"

definition reply :: "jsval \<Rightarrow> jsval \<Rightarrow> bool \<Rightarrow> endpoint \<Rightarrow> unit outcome \<times> endpoint" where
  "reply ident payload isError st =
     (if destroyed st \<or> \<not> isOpen st then (Inr (), st)
      else (let st1 = dbg ''outgoing'' st in
            if is_binary payload
            then (if isError
                  then (Inl (api_error ''Can't send a binary error reply.''
                          ''INVALID_PARAMETER''), st1)
                  else (Inr (), ws_send (Sent_raw payload) (ws_send (marker_frame ident) st1)))
            else (Inr (), ws_send (reply_frame isError payload ident) st1)))"

text \<open>What the reply helper is given: a function (called, then awaited) or anything
  else (awaited). Awaiting yields a value or throws.\<close>

datatype awaited = Fulfils jsval | Throws jsval

datatype reply_arg = Plain awaited | Thunk awaited

text \<open>The closure \<^verbatim>\<open>#replyFunc(id)\<close> returns, from the moment its \<^verbatim>\<open>await\<close> is over.
  It is \<^verbatim>\<open>async\<close>: \<open>Inl\<close> is the rejection of the promise it returns. Its whole body
  is inside \<^verbatim>\<open>try\<close>, so what \<^verbatim>\<open>#reply\<close> throws is caught as well.\<close>

definition replyFunc :: "jsval \<Rightarrow> reply_arg \<Rightarrow> bool \<Rightarrow> endpoint \<Rightarrow> unit outcome \<times> endpoint" where
  "replyFunc ident arg isError st =
     (case (case arg of Thunk a \<Rightarrow> a | Plain a \<Rightarrow> a) of
        Fulfils v \<Rightarrow> (case reply ident v isError st of
                        (Inl e, st1) \<Rightarrow> reply ident e True st1
                      | (Inr u, st1) \<Rightarrow> (Inr u, st1))
      | Throws e \<Rightarrow> reply ident e True st)"

subsection \<open>Receiving\<close>

datatype inbound = Binary_data jsval | Text_data "json option"

text \<open>A text frame is given by what \<^verbatim>\<open>JSON.parse\<close> makes of it: \<open>None\<close> when it throws
  a SyntaxError. The keys of the pending-request map are the numbers \<^verbatim>\<open>send\<close> stored,
  so only a number finds an entry.\<close>

definition awaiting_key :: "json option \<Rightarrow> nat option" where
  "awaiting_key ident = (case ident of
      Some (JNum i) \<Rightarrow> if 0 \<le> i then Some (nat i) else None
    | _ \<Rightarrow> None)"

definition awaiting_get :: "(nat \<times> awaiting) list \<Rightarrow> json option \<Rightarrow> awaiting option" where
  "awaiting_get m ident = (case awaiting_key ident of None \<Rightarrow> None | Some k \<Rightarrow> map_of m k)"

definition awaiting_delete :: "json option \<Rightarrow> (nat \<times> awaiting) list \<Rightarrow> (nat \<times> awaiting) list" where
  "awaiting_delete ident m = (case awaiting_key ident of None \<Rightarrow> m | Some k \<Rightarrow> AList.delete k m)"

definition is_reply_tag :: "json \<Rightarrow> bool" where
  "is_reply_tag c = (c = JStr ''int:reply'' \<or> c = JStr ''int:errorReply'' \<or> c = JStr ''int:binaryReply'')"

text \<open>The three reply cases of the \<^verbatim>\<open>switch\<close>. \<^verbatim>\<open>Map.get\<close> of an unknown id is
  \<^verbatim>\<open>undefined\<close>, and destructuring it throws; a found entry always has its
  \<^verbatim>\<open>resolve\<close>, so the \<^verbatim>\<open>else\<close> of \<^verbatim>\<open>if (resolve)\<close> is never taken.\<close>

definition on_reply :: "json \<Rightarrow> json option \<Rightarrow> json option \<Rightarrow> endpoint \<Rightarrow> unit outcome \<times> endpoint" where
  "on_reply c payload ident st = (case awaiting_get (awaitingReply st) ident of
      None \<Rightarrow> (Inl (type_error ''Cannot destructure property resolve of undefined.''), st)
    | Some a \<Rightarrow>
        (let st1 = (if c = JStr ''int:reply'' then call_resolve a (val payload) st
                    else if c = JStr ''int:errorReply'' then call_reject a (val payload) st
                    else st\<lparr>awaitingBinaryReply := Some a\<rparr>)
         in (Inr (), st1\<lparr>awaitingReply := awaiting_delete ident (awaitingReply st1)\<rparr>)))"

text \<open>The \<^verbatim>\<open>default\<close> case: publish the command; without a subscriber, answer with an
  error reply.\<close>

definition on_command :: "json \<Rightarrow> json option \<Rightarrow> json option \<Rightarrow> endpoint \<Rightarrow> unit outcome \<times> endpoint" where
  "on_command c payload ident st = (case emit c [ReplyFunc (val ident), val payload] st of
      (Inl e, st1) \<Rightarrow> (Inl e, st1)
    | (Inr had, st1) \<Rightarrow>
        if had then (Inr (), st1)
        else reply (val ident) (Json (JStr (''No listener for command: '' @ json_to_string c))) True st1)"

definition onMessage :: "inbound \<Rightarrow> endpoint \<Rightarrow> unit outcome \<times> endpoint" where
  "onMessage data st =
     (if destroyed st then (Inr (), st)
      else case data of
          Binary_data d \<Rightarrow> (case awaitingBinaryReply st of
              Some a \<Rightarrow> (let st1 = dbg ''incoming binary'' st;
                            st2 = call_resolve a d st1
                        in (Inr (), st2\<lparr>awaitingBinaryReply := None\<rparr>))
            | None \<Rightarrow> (Inr (), dbg ''Un-awaited binary payload.'' st))
        | Text_data parsed \<Rightarrow> (case parsed of
              None \<Rightarrow> (Inl (ErrorObj ''SyntaxError'' ''Unexpected token in JSON.'' []), st)
            | Some v \<Rightarrow> (case destructure v of
                  Inl e \<Rightarrow> (Inl e, st)
                | Inr (cmd, payload, ident) \<Rightarrow>
                    (let st1 = dbg ''incoming'' st in
                     case cmd of
                       None \<Rightarrow> (Inr (), dbg ''Invalid message received'' st1)
                     | Some c \<Rightarrow> if is_reply_tag c then on_reply c payload ident st1
                                 else on_command c payload ident st1))))"

section \<open>Runs\<close>

text \<open>What can happen to an endpoint: a call of one of its methods, of a reply helper,
  of one of the four listeners it puts on its transport, of the emitter's own
  subscription methods; a timer of the host firing; the transport changing state. A run
  is a list of these; an exception ends the call that raised it and leaves the state as
  it was at the throw. Time is the order of the run: a timeout is the firing of its
  timer, and what happens before a timeout is what stands earlier in the list.\<close>

datatype op =
    Send jsval jsval "nat option"
  | ChangeWebSocket transport
  | Destroy
  | Message inbound
  | Reply jsval reply_arg bool
  | Fire nat
  | WsOpen
  | WsError jsval
  | WsClose jsval
  | Subscribe string bool nat
  | Unsubscribe_all
  | ReadyState nat

definition step :: "op \<Rightarrow> endpoint \<Rightarrow> endpoint" where
  "step x st = (case x of
      Send cmd payload ms \<Rightarrow> snd (send cmd payload ms st)
    | ChangeWebSocket t \<Rightarrow> snd (changeWebSocket t st)
    | Destroy \<Rightarrow> destroy st
    | Message data \<Rightarrow> snd (onMessage data st)
    | Reply ident arg isError \<Rightarrow> snd (replyFunc ident arg isError st)
    | Fire k \<Rightarrow> fire_timer k st
    | WsOpen \<Rightarrow> snd (emit (JStr ''open'') [] st)
    | WsError ev \<Rightarrow> snd (emit (JStr ''error'') [ev] st)
    | WsClose ev \<Rightarrow> snd (emit (JStr ''close'') [ev] st)
    | Subscribe name once k \<Rightarrow>
        (if once then once_event name (User_listener k) st else on_event name (User_listener k) st)
    | Unsubscribe_all \<Rightarrow> removeAllListeners st
    | ReadyState n \<Rightarrow> (case ws st of None \<Rightarrow> st | Some t \<Rightarrow> st\<lparr>ws := Some (t\<lparr>readyState := n\<rparr>)\<rparr>))"

definition run :: "op list \<Rightarrow> endpoint \<Rightarrow> endpoint" where
  "run ops st = fold step ops st"

section \<open>Command names\<close>

text \<open>The names \<^verbatim>\<open>send\<close> refuses, in the words of the specification: not a string,
  starting with the internal prefix, or equal to a reserved event name. A user command
  name is a string that is neither.\<close>

definition invalid_cmd :: "jsval \<Rightarrow> bool" where
  "invalid_cmd cmd = (case cmd of
      Json (JStr c) \<Rightarrow> starts_with ''int:'' c \<or> c \<in> set reserved
    | _ \<Rightarrow> True)"

definition user_command :: "string \<Rightarrow> bool" where
  "user_command c = (\<not> starts_with ''int:'' c \<and> c \<notin> set reserved)"

section \<open>Sample transports and endpoints\<close>

text \<open>A socket still connecting, and the endpoint bound to it once it has opened: the
  inputs of the examples below.\<close>

definition connecting_socket :: transport where
  "connecting_socket = \<lparr>readyState = 0, ws_binaryType = None, ws_listeners = []\<rparr>"

definition closed_socket :: transport where
  "closed_socket = \<lparr>readyState = CLOSED, ws_binaryType = None, ws_listeners = []\<rparr>"

definition live_endpoint :: "host \<Rightarrow> bool \<Rightarrow> endpoint" where
  "live_endpoint h dbg_on =
     run [ChangeWebSocket connecting_socket, ReadyState OPEN] (new_endpoint h dbg_on None False)"

section \<open>Parts of the state\<close>

text \<open>What publishing an event never touches: the host's promises and timers, the wire,
  the console, the id counter, the binary slot and the configuration.\<close>

definition core :: "endpoint \<Rightarrow> pstate list \<times> timer list \<times> frame list \<times> string list \<times> nat \<times>
    awaiting option \<times> host \<times> bool \<times> bool \<times> string" where
  "core st = (promises st, timers st, sent st, console st, msgId st, awaitingBinaryReply st,
     host st, debug st, destroyOnClose st, binaryType st)"

section \<open>Request ids on the wire\<close>

text \<open>The id of a request envelope among the frames sent: a text frame whose \<^verbatim>\<open>cmd\<close>
  does not start with the internal prefix. Replies echo the ids of the peer and are not
  counted.\<close>

fun request_id :: "frame \<Rightarrow> int option" where
  "request_id (Sent_json kvs) = (case map_of kvs ''cmd'' of
      Some (Json (JStr c)) \<Rightarrow>
        (if starts_with ''int:'' c then None
         else (case map_of kvs ''id'' of Some (Json (JNum i)) \<Rightarrow> Some i | _ \<Rightarrow> None))
    | _ \<Rightarrow> None)"
| "request_id (Sent_raw v) = None"

definition request_ids :: "frame list \<Rightarrow> int list" where
  "request_ids fs = List.map_filter request_id fs"

section \<open>Consistency of the pending requests\<close>

text \<open>The closures the endpoint still holds: the values of the pending-request map and
  the binary slot.\<close>

definition holders :: "endpoint \<Rightarrow> awaiting list" where
  "holders st = map snd (awaitingReply st) @
     (case awaitingBinaryReply st of None \<Rightarrow> [] | Some a \<Rightarrow> [a])"

text \<open>A held pair of closures points at its own timer, which rejects its own promise and
  has not been cleared.\<close>

definition holder_ok :: "endpoint \<Rightarrow> awaiting \<Rightarrow> bool" where
  "holder_ok st a = (a_timer a < length (timers st) \<and>
     t_handler (timers st ! a_timer a) = Reject_promise (a_promise a) \<and>
     t_status (timers st ! a_timer a) \<noteq> Cleared)"

text \<open>A timer of \<^verbatim>\<open>send\<close> carries one timeout error, and its status tells the state of
  its promise: armed and pending, fired and rejected with that error, or cleared by a
  settlement.\<close>

definition timer_ok :: "endpoint \<Rightarrow> nat \<Rightarrow> bool" where
  "timer_ok st k = (\<forall>q. t_handler (timers st ! k) = Reject_promise q \<longrightarrow>
     q < length (promises st) \<and>
     (\<exists>c ms. t_args (timers st ! k) = [timeout_error c ms]) \<and>
     (t_status (timers st ! k) = Armed \<longrightarrow> promises st ! q = Pending) \<and>
     (t_status (timers st ! k) = Fired \<longrightarrow>
        promises st ! q = Rejected (hd (t_args (timers st ! k)))) \<and>
     (t_status (timers st ! k) = Cleared \<longrightarrow> promises st ! q \<noteq> Pending))"

definition rejecters_unique :: "endpoint \<Rightarrow> bool" where
  "rejecters_unique st = (\<forall>k < length (timers st). \<forall>j < length (timers st). \<forall>q.
     t_handler (timers st ! k) = Reject_promise q \<and> t_handler (timers st ! j) = Reject_promise q
       \<longrightarrow> k = j)"

definition consistent :: "endpoint \<Rightarrow> bool" where
  "consistent st = (distinct (map a_timer (holders st)) \<and>
     (\<forall>a \<in> set (holders st). holder_ok st a) \<and>
     (\<forall>k < length (timers st). timer_ok st k) \<and>
     rejecters_unique st)"

definition view :: "endpoint \<Rightarrow> (nat \<times> awaiting) list \<times> awaiting option \<times> timer list \<times> pstate list" where
  "view st = (awaitingReply st, awaitingBinaryReply st, timers st, promises st)"

text \<open>The ids transmitted so far are the numbers below the counter, in order.\<close>

definition ids_ok :: "endpoint \<Rightarrow> bool" where
  "ids_ok st = (request_ids (sent st) = map int [0..<msgId st])"

text \<open>Two requests with a change of transport between them.\<close>

definition two_sends :: "op list" where
  "two_sends = [ChangeWebSocket connecting_socket, ReadyState OPEN,
     Send (Json (JStr ''echo'')) (Json (JNum 1)) None,
     ChangeWebSocket connecting_socket, ReadyState OPEN,
     Send (Json (JStr ''sum'')) (Json (JArr [JNum 1, JNum 2])) (Some 50)]"

section \<open>A request and its answer\<close>

text \<open>An incoming reply, error reply or binary-reply marker whose id is \<open>n\<close>.\<close>

definition answers :: "nat \<Rightarrow> op \<Rightarrow> bool" where
  "answers n x = (case x of
      Message (Text_data (Some v)) \<Rightarrow>
        (case field ''cmd'' v of
           Some c \<Rightarrow> is_reply_tag c \<and> awaiting_key (field ''id'' v) = Some n
         | None \<Rightarrow> False)
    | _ \<Rightarrow> False)"

text \<open>An incoming reply or error reply whose id is \<open>n\<close>: the two text frames that carry
  an answer. The answer announced by a binary-reply marker is the binary frame that
  follows it.\<close>

definition replies :: "nat \<Rightarrow> op \<Rightarrow> bool" where
  "replies n x = (case x of
      Message (Text_data (Some v)) \<Rightarrow>
        (field ''cmd'' v = Some (JStr ''int:reply'') \<or>
         field ''cmd'' v = Some (JStr ''int:errorReply'')) \<and>
        awaiting_key (field ''id'' v) = Some n
    | _ \<Rightarrow> False)"

text \<open>The request with id \<open>n\<close>, timer \<open>k\<close>, promise \<open>p\<close> and timeout error \<open>e\<close> has not been
  answered: its timer is as \<^verbatim>\<open>send\<close> made it and has not been cleared, and its closures
  are nowhere but under \<open>n\<close> in the pending-request map.\<close>

definition awaits :: "endpoint \<Rightarrow> nat \<Rightarrow> nat \<Rightarrow> nat \<Rightarrow> jsval \<Rightarrow> bool" where
  "awaits st n k p e = (consistent st \<and> k < length (timers st) \<and>
     t_handler (timers st ! k) = Reject_promise p \<and> t_args (timers st ! k) = [e] \<and>
     t_status (timers st ! k) \<noteq> Cleared \<and>
     awaitingBinaryReply st \<noteq> Some \<lparr>a_timer = k, a_promise = p\<rparr> \<and>
     (\<forall>key. map_of (awaitingReply st) key = Some \<lparr>a_timer = k, a_promise = p\<rparr> \<longrightarrow> key = n))"

text \<open>What every later step keeps of the request with id \<open>n\<close>, timer \<open>k\<close> and promise
  \<open>p\<close>: the timer is the one \<^verbatim>\<open>send\<close> armed, with its handler, delay \<open>dl\<close> and timeout error
  \<open>e\<close>, and in the pending-request map its closures are under \<open>n\<close> or nowhere.\<close>

definition tracked :: "endpoint \<Rightarrow> nat \<Rightarrow> nat \<Rightarrow> nat \<Rightarrow> timer_delay \<Rightarrow> jsval \<Rightarrow> bool" where
  "tracked st n k p dl e = (consistent st \<and> k < length (timers st) \<and>
     t_handler (timers st ! k) = Reject_promise p \<and> t_delay (timers st ! k) = dl \<and>
     t_args (timers st ! k) = [e] \<and>
     (\<forall>key. map_of (awaitingReply st) key = Some \<lparr>a_timer = k, a_promise = p\<rparr> \<longrightarrow> key = n))"

text \<open>One request on an open transport, with a timeout of 50 ms.\<close>

definition one_request :: "op list" where
  "one_request = [ChangeWebSocket connecting_socket, ReadyState OPEN,
     Send (Json (JStr ''echo'')) (Json (JNum 1)) (Some 50)]"

text \<open>A destroyed endpoint has no pending request.\<close>

definition tidy :: "endpoint \<Rightarrow> bool" where
  "tidy st = (destroyed st \<longrightarrow> awaitingReply st = [])"

text \<open>The keys of the pending-request map are ids already given out.\<close>

definition keys_below :: "endpoint \<Rightarrow> bool" where
  "keys_below st = (\<forall>key \<in> fst ` set (awaitingReply st). key < msgId st)"

section \<open>Basic facts\<close>

lemma live_endpoint_eq:
  "live_endpoint h d = \<lparr>host = h, debug = d,
     ws = Some \<lparr>readyState = OPEN,
       ws_binaryType = Some (case h of Node \<Rightarrow> ''nodebuffer'' | Browser \<Rightarrow> ''arraybuffer''),
       ws_listeners = [(''open'', True), (''error'', True), (''close'', True), (''message'', False)]\<rparr>,
     binaryType = (case h of Node \<Rightarrow> ''nodebuffer'' | Browser \<Rightarrow> ''arraybuffer''),
     msgId = 0, awaitingReply = [], awaitingBinaryReply = None,
     destroyOnClose = False, destroyed = False, listeners = [(''close'', Some 0, Close_hook)],
     wrappers = [False], promises = [], timers = [], sent = [], delivered = [], console = []\<rparr>"
  by (simp add: live_endpoint_def run_def step_def changeWebSocket_def new_endpoint_def
      removeWsListeners_def once_event_def newListener_def subscribers_def isClosed_def
      isOpen_def wsEvents_def addEventListener_def connecting_socket_def OPEN_def CLOSED_def)

lemma send_not_usable:
  "destroyed st \<or> \<not> isOpen st \<Longrightarrow> send cmd payload ms st = (Inr None, st)"
  by (auto simp: send_def)

lemma reply_not_usable:
  "destroyed st \<or> \<not> isOpen st \<Longrightarrow> reply ident payload isError st = (Inr (), st)"
  by (auto simp: reply_def)

lemma dbg_fields [simp]:
  "destroyed (dbg t st) = destroyed st" "ws (dbg t st) = ws st" "sent (dbg t st) = sent st"
  "listeners (dbg t st) = listeners st" "awaitingReply (dbg t st) = awaitingReply st"
  "awaitingBinaryReply (dbg t st) = awaitingBinaryReply st" "msgId (dbg t st) = msgId st"
  "promises (dbg t st) = promises st" "timers (dbg t st) = timers st"
  "delivered (dbg t st) = delivered st" "debug (dbg t st) = debug st"
  "host (dbg t st) = host st" "destroyOnClose (dbg t st) = destroyOnClose st"
  by (simp_all add: dbg_def)

lemma removeWsListeners_fields [simp]:
  "host (removeWsListeners st) = host st" "timers (removeWsListeners st) = timers st"
  "delivered (removeWsListeners st) = delivered st" "destroyed (removeWsListeners st) = destroyed st"
  "listeners (removeWsListeners st) = listeners st" "wrappers (removeWsListeners st) = wrappers st"
  "promises (removeWsListeners st) = promises st" "sent (removeWsListeners st) = sent st"
  "msgId (removeWsListeners st) = msgId st" "console (removeWsListeners st) = console st"
  "awaitingReply (removeWsListeners st) = awaitingReply st"
  "awaitingBinaryReply (removeWsListeners st) = awaitingBinaryReply st"
  "binaryType (removeWsListeners st) = binaryType st"
  by (simp_all add: removeWsListeners_def split: option.splits)

lemma dbg_isOpen [simp]: "isOpen (dbg t st) = isOpen st"
  by (simp add: isOpen_def)

lemma dbg_subscribers [simp]: "subscribers n (dbg t st) = subscribers n st"
  by (simp add: subscribers_def)

lemma emit_no_subscriber:
  "subscribers (json_to_string c) st = [] \<Longrightarrow> c \<noteq> JStr ''error'' \<Longrightarrow> emit c args st = (Inr False, st)"
  by (simp add: emit_def emit_with_def)

lemma destructure_object:
  "field ''cmd'' v = Some c \<Longrightarrow>
     destructure v = Inr (Some c, field ''payload'' v, field ''id'' v)"
  by (auto simp: destructure_def field_def)

lemma reply_tag_prefixed: "is_reply_tag (JStr c) \<Longrightarrow> starts_with ''int:'' c"
  by (auto simp: is_reply_tag_def starts_with_def)

section \<open>What publishing an event leaves alone\<close>

text \<open>A property of the state that does not depend on the subscriptions, the wrappers or
  the transport still holds after a subscriber has run, if the delivery of the event to a
  function of the user and the hook's \<^verbatim>\<open>destroy\<close> keep it.\<close>

lemma inv_removeWsListeners:
  assumes "\<And>s x. P s \<Longrightarrow> P (s\<lparr>ws := x\<rparr>)"
  shows "P st \<Longrightarrow> P (removeWsListeners st)"
  by (simp add: removeWsListeners_def assms split: option.splits)

lemma inv_invoke:
  assumes d: "\<And>s. P s \<Longrightarrow> P (d s)"
    and dl: "\<And>s k. P s \<Longrightarrow> P (s\<lparr>delivered := delivered s @ [(k, n, a)]\<rparr>)"
    and w: "\<And>s x. P s \<Longrightarrow> P (s\<lparr>ws := x\<rparr>)"
  shows "P st \<Longrightarrow> P (invoke d n a l st)"
proof -
  assume p: "P st"
  have h: "P (close_hook d s)" if "P s" for s
    using that by (simp add: close_hook_def Let_def d inv_removeWsListeners [of P, OF w])
  from p show ?thesis
    by (cases l) (simp_all add: invoke_def h dl)
qed

lemma inv_call_listener:
  assumes d: "\<And>s. P s \<Longrightarrow> P (d s)"
    and l: "\<And>s x. P s \<Longrightarrow> P (s\<lparr>listeners := x\<rparr>)"
    and f: "\<And>s x. P s \<Longrightarrow> P (s\<lparr>wrappers := x\<rparr>)"
    and dl: "\<And>s k. P s \<Longrightarrow> P (s\<lparr>delivered := delivered s @ [(k, n, a)]\<rparr>)"
    and w: "\<And>s x. P s \<Longrightarrow> P (s\<lparr>ws := x\<rparr>)"
  shows "P st \<Longrightarrow> P (call_listener d n a e st)"
proof -
  assume p: "P st"
  note i = inv_invoke [of P, OF d dl w]
  from p have "P (st\<lparr>listeners := x, wrappers := y\<rparr>)" for x y
    using f [OF l [OF p, of x], of y] by simp
  with p show ?thesis
    by (cases "fst (snd e)") (simp_all add: call_listener_def i)
qed

lemma inv_fold_call_listener:
  assumes "\<And>s. P s \<Longrightarrow> P (d s)"
    and "\<And>s x. P s \<Longrightarrow> P (s\<lparr>listeners := x\<rparr>)"
    and "\<And>s x. P s \<Longrightarrow> P (s\<lparr>wrappers := x\<rparr>)"
    and "\<And>s k. P s \<Longrightarrow> P (s\<lparr>delivered := delivered s @ [(k, n, a)]\<rparr>)"
    and "\<And>s x. P s \<Longrightarrow> P (s\<lparr>ws := x\<rparr>)"
  shows "P st \<Longrightarrow> P (fold (call_listener d n a) ls st)"
  by (induction ls arbitrary: st) (simp_all add: inv_call_listener [of P, OF assms])

lemma inv_emit_with:
  assumes "\<And>s. P s \<Longrightarrow> P (d s)"
    and "\<And>s x. P s \<Longrightarrow> P (s\<lparr>listeners := x\<rparr>)"
    and "\<And>s x. P s \<Longrightarrow> P (s\<lparr>wrappers := x\<rparr>)"
    and "\<And>s k. P s \<Longrightarrow> P (s\<lparr>delivered := delivered s @ [(k, json_to_string n, a)]\<rparr>)"
    and "\<And>s x. P s \<Longrightarrow> P (s\<lparr>ws := x\<rparr>)"
  shows "P st \<Longrightarrow> P (snd (emit_with d n a st))"
  by (simp add: emit_with_def Let_def inv_fold_call_listener [of P, OF assms])

lemma pres_removeWsListeners:
  assumes "\<And>s x. f (s\<lparr>ws := x\<rparr>) = f s"
  shows "f (removeWsListeners st) = f st"
  by (simp add: removeWsListeners_def assms split: option.splits)

lemma pres_emit_with:
  assumes "\<And>s. f (d s) = f s"
    and "\<And>s x. f (s\<lparr>listeners := x\<rparr>) = f s"
    and "\<And>s x. f (s\<lparr>wrappers := x\<rparr>) = f s"
    and "\<And>s x. f (s\<lparr>delivered := x\<rparr>) = f s"
    and "\<And>s x. f (s\<lparr>ws := x\<rparr>) = f s"
  shows "f (snd (emit_with d n a st)) = f st"
  by (rule inv_emit_with [of "\<lambda>s. f s = f st"]) (simp_all add: assms)

lemma core_upd [simp]:
  "core (s\<lparr>listeners := x\<rparr>) = core s" "core (s\<lparr>delivered := y\<rparr>) = core s"
  "core (s\<lparr>ws := z\<rparr>) = core s" "core (s\<lparr>destroyed := b\<rparr>) = core s"
  "core (s\<lparr>awaitingReply := m\<rparr>) = core s" "core (s\<lparr>wrappers := f\<rparr>) = core s"
  by (simp_all add: core_def)

lemma core_destroy [simp]: "core (destroy st) = core st"
proof -
  have e: "core (snd (emit_with (\<lambda>s. s) n a s)) = core s" for n a s
    by (rule pres_emit_with) simp_all
  show ?thesis
    by (simp add: destroy_def Let_def removeAllListeners_def e split: option.splits)
qed

lemma core_emit [simp]: "core (snd (emit n a st)) = core st"
  unfolding emit_def by (rule pres_emit_with) simp_all

lemma core_dest:
  "core s = core t \<Longrightarrow> promises s = promises t \<and> timers s = timers t \<and> sent s = sent t \<and>
     console s = console t \<and> msgId s = msgId t \<and> awaitingBinaryReply s = awaitingBinaryReply t \<and>
     host s = host t \<and> debug s = debug t \<and> destroyOnClose s = destroyOnClose t \<and>
     binaryType s = binaryType t"
  by (simp add: core_def)

lemma emit_fields [simp]:
  "promises (snd (emit n a st)) = promises st" "timers (snd (emit n a st)) = timers st"
  "sent (snd (emit n a st)) = sent st" "console (snd (emit n a st)) = console st"
  "msgId (snd (emit n a st)) = msgId st"
  "awaitingBinaryReply (snd (emit n a st)) = awaitingBinaryReply st"
  "host (snd (emit n a st)) = host st" "debug (snd (emit n a st)) = debug st"
  "destroyOnClose (snd (emit n a st)) = destroyOnClose st"
  using core_dest [OF core_emit [of n a st]] by simp_all

lemma destroy_fields [simp]:
  "promises (destroy st) = promises st" "timers (destroy st) = timers st"
  "sent (destroy st) = sent st" "console (destroy st) = console st"
  "msgId (destroy st) = msgId st"
  "awaitingBinaryReply (destroy st) = awaitingBinaryReply st"
  "host (destroy st) = host st" "debug (destroy st) = debug st"
  "destroyOnClose (destroy st) = destroyOnClose st"
  using core_dest [OF core_destroy [of st]] by simp_all

section \<open>Subscribing\<close>

text \<open>What publishing an event keeps, and the subscriptions and wrappers do not matter
  to, is kept by \<^verbatim>\<open>on\<close> and \<^verbatim>\<open>once\<close>.\<close>

lemma inv_newListener:
  assumes "\<And>n a s. P s \<Longrightarrow> P (snd (emit n a s))"
  shows "P st \<Longrightarrow> P (newListener name f st)"
  by (simp add: newListener_def assms)

lemma inv_on_event:
  assumes e: "\<And>n a s. P s \<Longrightarrow> P (snd (emit n a s))"
    and l: "\<And>s x. P s \<Longrightarrow> P (s\<lparr>listeners := x\<rparr>)"
  shows "P st \<Longrightarrow> P (on_event name f st)"
  by (simp add: on_event_def Let_def l inv_newListener [of P, OF e])

lemma inv_once_event:
  assumes e: "\<And>n a s. P s \<Longrightarrow> P (snd (emit n a s))"
    and l: "\<And>s x. P s \<Longrightarrow> P (s\<lparr>listeners := x\<rparr>)"
    and w: "\<And>s x. P s \<Longrightarrow> P (s\<lparr>wrappers := x\<rparr>)"
  shows "P st \<Longrightarrow> P (once_event name f st)"
  by (simp add: once_event_def Let_def l w inv_newListener [of P, OF e])

lemma core_subscribe [simp]:
  "core (on_event n f st) = core st" "core (once_event n f st) = core st"
  by (rule inv_on_event [of "\<lambda>s. core s = core st"]; simp)
    (rule inv_once_event [of "\<lambda>s. core s = core st"]; simp)

lemma on_event_fields [simp]:
  "promises (on_event n f st) = promises st" "timers (on_event n f st) = timers st"
  "sent (on_event n f st) = sent st" "console (on_event n f st) = console st"
  "msgId (on_event n f st) = msgId st"
  "awaitingBinaryReply (on_event n f st) = awaitingBinaryReply st"
  "host (on_event n f st) = host st" "debug (on_event n f st) = debug st"
  "destroyOnClose (on_event n f st) = destroyOnClose st"
  "binaryType (on_event n f st) = binaryType st"
  using core_dest [OF core_subscribe(1) [of n f st]] by simp_all

lemma once_event_fields [simp]:
  "promises (once_event n f st) = promises st" "timers (once_event n f st) = timers st"
  "sent (once_event n f st) = sent st" "console (once_event n f st) = console st"
  "msgId (once_event n f st) = msgId st"
  "awaitingBinaryReply (once_event n f st) = awaitingBinaryReply st"
  "host (once_event n f st) = host st" "debug (once_event n f st) = debug st"
  "destroyOnClose (once_event n f st) = destroyOnClose st"
  "binaryType (once_event n f st) = binaryType st"
  using core_dest [OF core_subscribe(2) [of n f st]] by simp_all

section \<open>The flag of \<^verbatim>\<open>destroy\<close>\<close>

lemma destroy_reentrant: "destroyed st \<Longrightarrow> destroy st = st"
  by (simp add: destroy_def)

lemma destroyed_emit_inner [simp]:
  "destroyed (snd (emit_with (\<lambda>s. s) n a st)) = destroyed st"
  by (rule pres_emit_with) simp_all

lemma awaitingReply_emit_inner [simp]:
  "awaitingReply (snd (emit_with (\<lambda>s. s) n a st)) = awaitingReply st"
  by (rule pres_emit_with) simp_all

lemma destroyed_destroy [simp]: "destroyed (destroy st)"
  by (simp add: destroy_def Let_def removeAllListeners_def split: option.splits)

lemma awaitingReply_destroy:
  "awaitingReply (destroy st) = (if destroyed st then awaitingReply st else [])"
  by (simp add: destroy_def Let_def removeAllListeners_def split: option.splits)

text \<open>Once the flag is set, a close hook that calls \<^verbatim>\<open>destroy\<close> and one that does
  nothing are the same: this is what the definition of \<open>destroy\<close> relies on.\<close>

lemma invoke_while_destroyed:
  "destroyed st \<Longrightarrow> invoke (\<lambda>s. s) n a f st = invoke destroy n a f st \<and>
     destroyed (invoke destroy n a f st)"
proof -
  assume d: "destroyed st"
  have r: "destroyed (removeWsListeners s) = destroyed s" for s
    by (rule pres_removeWsListeners) simp
  have h: "close_hook (\<lambda>s. s) s = close_hook destroy s \<and> destroyed (close_hook destroy s)"
    if "destroyed s" for s
    using that by (simp add: close_hook_def Let_def r destroy_reentrant)
  from d h [of st] show ?thesis by (cases f) (simp_all add: invoke_def)
qed

lemma call_listener_while_destroyed:
  "destroyed st \<Longrightarrow> call_listener (\<lambda>s. s) n a e st = call_listener destroy n a e st \<and>
     destroyed (call_listener destroy n a e st)"
proof -
  assume d: "destroyed st"
  show ?thesis
  proof (cases "fst (snd e)")
    case None
    with invoke_while_destroyed [OF d] show ?thesis by (simp add: call_listener_def)
  next
    case (Some w)
    have "destroyed (st\<lparr>listeners := remove1 e (listeners st), wrappers := (wrappers st)[w := True]\<rparr>)"
      using d by simp
    from invoke_while_destroyed [OF this] Some d show ?thesis by (simp add: call_listener_def)
  qed
qed

lemma fold_while_destroyed:
  "destroyed st \<Longrightarrow>
     fold (call_listener (\<lambda>s. s) n a) ls st = fold (call_listener destroy n a) ls st"
proof (induction ls arbitrary: st)
  case Nil
  then show ?case by simp
next
  case (Cons e ls)
  from call_listener_while_destroyed [OF Cons.prems, of n a e]
  have "call_listener (\<lambda>s. s) n a e st = call_listener destroy n a e st"
    and "destroyed (call_listener destroy n a e st)" by simp_all
  with Cons.IH show ?case by simp
qed

lemma emit_while_destroyed: "destroyed st \<Longrightarrow> emit_with (\<lambda>s. s) n a st = emit n a st"
  by (auto simp: emit_def emit_with_def Let_def fold_while_destroyed)

lemma destroyed_emit: "destroyed st \<Longrightarrow> destroyed (snd (emit n a st))"
  unfolding emit_def by (rule inv_emit_with) simp_all

lemma emit_alive:
  "awaitingReply (snd (emit n a st)) = awaitingReply st \<or>
   (destroyed (snd (emit n a st)) \<and> awaitingReply (snd (emit n a st)) = [])"
  unfolding emit_def
  by (rule inv_emit_with [of "\<lambda>s. awaitingReply s = awaitingReply st \<or>
        (destroyed s \<and> awaitingReply s = [])"])
    (auto simp: awaitingReply_destroy)

lemma subscribe_alive:
  "awaitingReply (on_event n f st) = awaitingReply st \<or>
   (destroyed (on_event n f st) \<and> awaitingReply (on_event n f st) = [])"
  "awaitingReply (once_event n f st) = awaitingReply st \<or>
   (destroyed (once_event n f st) \<and> awaitingReply (once_event n f st) = [])"
proof -
  let ?P = "\<lambda>s. awaitingReply s = awaitingReply st \<or> (destroyed s \<and> awaitingReply s = [])"
  have e: "?P (snd (emit m a s))" if "?P s" for m a s
    using that emit_alive [of m a s] destroyed_emit [of s m a] by auto
  show "?P (on_event n f st)" by (rule inv_on_event [of ?P, OF e]) simp_all
  show "?P (once_event n f st)" by (rule inv_once_event [of ?P, OF e]) simp_all
qed

lemma destroyed_subscribe:
  "destroyed st \<Longrightarrow> destroyed (on_event n f st)"
  "destroyed st \<Longrightarrow> destroyed (once_event n f st)"
  by (rule inv_on_event [of destroyed]; simp add: destroyed_emit)
    (rule inv_once_event [of destroyed]; simp add: destroyed_emit)

section \<open>Binding a transport keeps what publishing keeps\<close>

lemma inv_changeWebSocket:
  assumes e: "\<And>n a s. P s \<Longrightarrow> P (snd (emit n a s))"
    and l: "\<And>s x. P s \<Longrightarrow> P (s\<lparr>listeners := x\<rparr>)"
    and w: "\<And>s x. P s \<Longrightarrow> P (s\<lparr>wrappers := x\<rparr>)"
    and ws: "\<And>s x. P s \<Longrightarrow> P (s\<lparr>ws := x\<rparr>)"
    and tm: "\<And>s args. P s \<Longrightarrow> P (s\<lparr>timers := timers s @
        [\<lparr>t_status = Armed, t_handler = Not_a_function (JNum 0), t_delay = Bound_emit,
          t_args = args\<rparr>]\<rparr>)"
  shows "P st \<Longrightarrow> P (snd (changeWebSocket t st))"
proof -
  assume p: "P st"
  let ?s0 = "once_event ''close'' Close_hook (removeWsListeners st)"
  have r: "P (removeWsListeners st)"
    using p by (simp add: removeWsListeners_def ws split: option.splits)
  have 0: "P ?s0" by (rule inv_once_event [of P, OF e l w r])
  have t: "P (snd (setTimeout (Not_a_function (JNum 0)) Bound_emit args s))" if "P s" for s args
    using that tm [OF that, of args]
    by (simp add: setTimeout_def add_timer_def split: host.splits)
  have c: "snd (case r of (Inl e, s) \<Rightarrow> (Inl e, s) | (Inr k, s) \<Rightarrow> (Inr (), s)) = snd r"
    for r :: "nat outcome \<times> endpoint"
    by (cases r) (simp split: sum.splits)
  from p ws [OF 0] t show ?thesis
    by (simp add: changeWebSocket_def Let_def c)
qed

lemma changeWebSocket_fields [simp]:
  "promises (snd (changeWebSocket t st)) = promises st"
  "sent (snd (changeWebSocket t st)) = sent st"
  "msgId (snd (changeWebSocket t st)) = msgId st"
  "awaitingBinaryReply (snd (changeWebSocket t st)) = awaitingBinaryReply st"
proof -
  show "promises (snd (changeWebSocket t st)) = promises st"
    by (rule inv_changeWebSocket [of "\<lambda>s. promises s = promises st"]) simp_all
  show "sent (snd (changeWebSocket t st)) = sent st"
    by (rule inv_changeWebSocket [of "\<lambda>s. sent s = sent st"]) simp_all
  show "msgId (snd (changeWebSocket t st)) = msgId st"
    by (rule inv_changeWebSocket [of "\<lambda>s. msgId s = msgId st"]) simp_all
  show "awaitingBinaryReply (snd (changeWebSocket t st)) = awaitingBinaryReply st"
    by (rule inv_changeWebSocket [of "\<lambda>s. awaitingBinaryReply s = awaitingBinaryReply st"]) simp_all
qed

lemma changeWebSocket_timers:
  "timers (snd (changeWebSocket t st)) = timers st \<or>
   (\<exists>args. timers (snd (changeWebSocket t st)) = timers st @
      [\<lparr>t_status = Armed, t_handler = Not_a_function (JNum 0), t_delay = Bound_emit,
        t_args = args\<rparr>])"
  by (simp add: changeWebSocket_def Let_def setTimeout_def add_timer_def split: host.splits)

lemma changeWebSocket_alive:
  "awaitingReply (snd (changeWebSocket t st)) = awaitingReply st \<or>
   (destroyed (snd (changeWebSocket t st)) \<and> awaitingReply (snd (changeWebSocket t st)) = [])"
proof -
  let ?P = "\<lambda>s. awaitingReply s = awaitingReply st \<or> (destroyed s \<and> awaitingReply s = [])"
  have e: "?P (snd (emit m a s))" if "?P s" for m a s
    using that emit_alive [of m a s] destroyed_emit [of s m a] by auto
  show ?thesis by (rule inv_changeWebSocket [of ?P, OF e]) simp_all
qed

lemma destroyed_changeWebSocket:
  "destroyed st \<Longrightarrow> destroyed (snd (changeWebSocket t st))"
  by (simp add: changeWebSocket_def)

section \<open>The console\<close>

lemma call_fields [simp]:
  "console (call_resolve a v st) = console st" "console (call_reject a v st) = console st"
  "sent (call_resolve a v st) = sent st" "sent (call_reject a v st) = sent st"
  "msgId (call_resolve a v st) = msgId st" "msgId (call_reject a v st) = msgId st"
  "destroyed (call_resolve a v st) = destroyed st" "destroyed (call_reject a v st) = destroyed st"
  "awaitingReply (call_resolve a v st) = awaitingReply st"
  "awaitingReply (call_reject a v st) = awaitingReply st"
  "awaitingBinaryReply (call_resolve a v st) = awaitingBinaryReply st"
  "awaitingBinaryReply (call_reject a v st) = awaitingBinaryReply st"
  by (simp_all add: call_resolve_def call_reject_def settle_def clearTimeout_def)

lemma console_reply:
  "console (snd (reply i p e st)) = console st \<or>
   console (snd (reply i p e st)) = console st @ [''outgoing'']"
  by (simp add: reply_def dbg_def ws_send_def)

lemma console_on_reply: "console (snd (on_reply c p i st)) = console st"
  by (simp add: on_reply_def Let_def split: option.splits)

lemma console_on_command:
  "console (snd (on_command c p i st)) = console st \<or>
   console (snd (on_command c p i st)) = console st @ [''outgoing'']"
proof (cases "emit c [ReplyFunc (val i), val p] st")
  case (Pair r st1)
  then have c: "console st1 = console st"
    using emit_fields(4) [of c "[ReplyFunc (val i), val p]" st] by simp
  show ?thesis
  proof (cases r)
    case (Inl e)
    with Pair c show ?thesis by (simp add: on_command_def)
  next
    case (Inr had)
    with Pair c console_reply [of "val i" _ True st1] show ?thesis
      by (auto simp: on_command_def)
  qed
qed


section \<open>Binding a transport\<close>

lemma delivered_settle [simp]: "delivered (settle p v st) = delivered st"
  by (simp add: settle_def)

lemma delivered_fire_timer [simp]: "delivered (fire_timer k st) = delivered st"
  by (simp add: fire_timer_def Let_def split: timer_handler.splits)

lemma delivered_fire_all: "delivered (run (map Fire ks) st) = delivered st"
  by (induction ks arbitrary: st) (simp_all add: run_def step_def)


lemma changeWebSocket_closed:
  assumes "\<not> destroyed st" and "readyState t = CLOSED"
  shows "changeWebSocket t st =
    (let st3 = (once_event ''close'' Close_hook (removeWsListeners st))\<lparr>ws := Some t\<rparr> in
     case host st of
       Node \<Rightarrow> (Inl (callback_type_error (JNum 0)), st3)
     | Browser \<Rightarrow> (Inr (), st3\<lparr>timers := timers st @
           [\<lparr>t_status = Armed, t_handler = Not_a_function (JNum 0), t_delay = Bound_emit,
             t_args = [Json (JStr ''close''), closed_event]\<rparr>]\<rparr>))"
proof -
  have h: "host (removeWsListeners st) = host st" "timers (removeWsListeners st) = timers st"
    by (simp_all add: removeWsListeners_def split: option.splits)
  show ?thesis
    using assms
    by (simp add: changeWebSocket_def Let_def isClosed_def setTimeout_def add_timer_def
        h split: host.splits)
qed


lemma readyState_addEventListener [simp]:
  "readyState (addEventListener ev once t) = readyState t"
  by (simp add: addEventListener_def)

lemma readyState_add_all [simp]:
  "readyState (fold (\<lambda>ev t. addEventListener ev (ev \<noteq> ''message'') t) evs t) = readyState t"
  by (induction evs arbitrary: t) simp_all

lemma changeWebSocket_open:
  assumes "\<not> destroyed st" and "readyState t = OPEN"
  shows "changeWebSocket t st =
    (let st5 = (once_event ''close'' Close_hook (removeWsListeners st))
          \<lparr>ws := Some (fold (\<lambda>ev t. addEventListener ev (ev \<noteq> ''message'') t) wsEvents
                         (t\<lparr>ws_binaryType := Some (binaryType st)\<rparr>))\<rparr> in
     case host st of
       Node \<Rightarrow> (Inl (callback_type_error (JNum 0)), st5)
     | Browser \<Rightarrow> (Inr (), st5\<lparr>timers := timers st @
           [\<lparr>t_status = Armed, t_handler = Not_a_function (JNum 0), t_delay = Bound_emit,
             t_args = [Json (JStr ''open'')]\<rparr>]\<rparr>))"
proof -
  have b: "binaryType (removeWsListeners st) = binaryType st"
    by (simp add: removeWsListeners_def split: option.splits)
  show ?thesis
    using assms
    by (simp add: changeWebSocket_def Let_def isClosed_def isOpen_def setTimeout_def add_timer_def
        b OPEN_def CLOSED_def split: host.splits)
qed

lemma delivered_changeWebSocket:
  "delivered (snd (changeWebSocket t st)) =
     (if destroyed st then delivered st
      else delivered (once_event ''close'' Close_hook (removeWsListeners st)))"
  by (simp add: changeWebSocket_def Let_def setTimeout_def add_timer_def
      split: host.splits)


text \<open>What binding a transport delivers is what registering the close hook publishes.\<close>

lemma emit_with_delivers:
  assumes d: "\<And>s. \<exists>news. delivered (d s) = delivered s @ news \<and> (\<forall>e \<in> set news. Q e)"
    and q: "\<And>k. Q (k, json_to_string n, a)"
  shows "\<exists>news. delivered (snd (emit_with d n a st)) = delivered st @ news \<and>
           (\<forall>e \<in> set news. Q e)"
proof (rule inv_emit_with [of "\<lambda>s. \<exists>news. delivered s = delivered st @ news \<and>
          (\<forall>e \<in> set news. Q e)"])
  fix s :: endpoint
  assume "\<exists>news. delivered s = delivered st @ news \<and> (\<forall>e \<in> set news. Q e)"
  then obtain xs where xs: "delivered s = delivered st @ xs" "\<forall>e \<in> set xs. Q e" by blast
  from d [of s] obtain ys where ys: "delivered (d s) = delivered s @ ys" "\<forall>e \<in> set ys. Q e"
    by blast
  from xs ys have "delivered (d s) = delivered st @ (xs @ ys) \<and> (\<forall>e \<in> set (xs @ ys). Q e)"
    by auto
  then show "\<exists>news. delivered (d s) = delivered st @ news \<and> (\<forall>e \<in> set news. Q e)" by blast
next
  fix s :: endpoint and k
  assume "\<exists>news. delivered s = delivered st @ news \<and> (\<forall>e \<in> set news. Q e)"
  then obtain xs where xs: "delivered s = delivered st @ xs" "\<forall>e \<in> set xs. Q e" by blast
  with q [of k]
  have "delivered (s\<lparr>delivered := delivered s @ [(k, json_to_string n, a)]\<rparr>) =
      delivered st @ (xs @ [(k, json_to_string n, a)]) \<and>
      (\<forall>e \<in> set (xs @ [(k, json_to_string n, a)]). Q e)" by auto
  then show "\<exists>news. delivered (s\<lparr>delivered := delivered s @ [(k, json_to_string n, a)]\<rparr>) =
      delivered st @ news \<and> (\<forall>e \<in> set news. Q e)" by blast
qed auto

lemma destroy_delivers:
  "\<exists>news. delivered (destroy st) = delivered st @ news \<and>
     (\<forall>e \<in> set news. fst (snd e) = ''close'' \<and> snd (snd e) = [destroy_event])"
proof -
  have "\<exists>news. delivered (snd (emit_with (\<lambda>s. s) (JStr ''close'') [destroy_event] s)) =
      delivered s @ news \<and>
      (\<forall>e \<in> set news. fst (snd e) = ''close'' \<and> snd (snd e) = [destroy_event])" for s
    by (rule emit_with_delivers) simp_all
  from this [of "st\<lparr>destroyed := True, awaitingReply := [], ws := x\<rparr>" for x]
  show ?thesis
    by (simp add: destroy_def Let_def removeAllListeners_def split: option.splits)
qed


lemma newListener_delivers:
  "\<exists>news. delivered (newListener name f st) = delivered st @ news \<and>
     (\<forall>e \<in> set news. \<not> bind_notification e)"
proof -
  let ?Q = "\<lambda>e. fst (snd e) = ''newListener'' \<or>
     (fst (snd e) = ''close'' \<and> snd (snd e) = [destroy_event])"
  have n: "\<not> bind_notification e" if "?Q e" for e :: "nat \<times> string \<times> jsval list"
    using that by (auto simp: bind_notification_def destroy_event_def closed_event_def)
  have "\<exists>news. delivered (snd (emit (JStr ''newListener'') a st)) = delivered st @ news \<and>
      (\<forall>e \<in> set news. ?Q e)" for a
    unfolding emit_def
  proof (rule emit_with_delivers)
    fix s from destroy_delivers [of s]
    show "\<exists>news. delivered (destroy s) = delivered s @ news \<and> (\<forall>e \<in> set news. ?Q e)"
      by auto
  qed simp
  from this [of "[Json (JStr name), Callback f]"] obtain news
    where "delivered (snd (emit (JStr ''newListener'') [Json (JStr name), Callback f] st)) =
      delivered st @ news" and "\<forall>e \<in> set news. ?Q e" by blast
  with n have "\<exists>news. delivered (snd (emit (JStr ''newListener'')
      [Json (JStr name), Callback f] st)) = delivered st @ news \<and>
      (\<forall>e \<in> set news. \<not> bind_notification e)" by blast
  then show ?thesis by (simp add: newListener_def)
qed

lemma once_event_delivers:
  "\<exists>news. delivered (once_event name f st) = delivered st @ news \<and>
     (\<forall>e \<in> set news. \<not> bind_notification e)"
  using newListener_delivers [of name f "st\<lparr>wrappers := wrappers st @ [False]\<rparr>"]
  by (simp add: once_event_def Let_def)

lemma once_event_silent:
  "subscribers ''newListener'' st = [] \<Longrightarrow> delivered (once_event name f st) = delivered st"
  by (simp add: once_event_def Let_def newListener_def subscribers_def)

lemma subscribers_removeWsListeners [simp]:
  "subscribers n (removeWsListeners st) = subscribers n st"
  by (simp add: subscribers_def)


section \<open>The id counter and the wire\<close>

lemma request_id_request [simp]:
  "request_id (request c p n) = (if starts_with ''int:'' c then None else Some (int n))"
  by (simp add: request_def)

lemma request_id_reply [simp]: "request_id (reply_frame e p i) = None"
  by (simp add: reply_frame_def starts_with_def)

lemma request_id_marker [simp]: "request_id (marker_frame i) = None"
  by (simp add: marker_frame_def starts_with_def)

lemma request_ids_append [simp]: "request_ids (xs @ ys) = request_ids xs @ request_ids ys"
  by (simp add: request_ids_def List.map_filter_def)

lemma request_ids_simps [simp]:
  "request_ids [] = []"
  "request_ids (f # fs) = (case request_id f of None \<Rightarrow> request_ids fs | Some i \<Rightarrow> i # request_ids fs)"
  by (simp_all add: request_ids_def List.map_filter_def split: option.splits)


lemma send_valid:
  assumes "\<not> destroyed st" and "isOpen st" and "user_command c"
  shows "\<exists>p st'. send (Json (JStr c)) payload ms st = (Inr (Some p), st') \<and>
           sent st' = sent st @ [request c payload (msgId st)] \<and> msgId st' = msgId st + 1"
  using assms
  by (simp add: send_def user_command_def Let_def new_promise_def setTimeout_def add_timer_def
      ws_send_def split: prod.splits)

lemma send_sent_msgId:
  "(sent (snd (send cmd payload ms st)) = sent st \<and> msgId (snd (send cmd payload ms st)) = msgId st) \<or>
   (\<exists>c. \<not> starts_with ''int:'' c \<and> sent (snd (send cmd payload ms st)) = sent st @ [request c payload (msgId st)] \<and>
      msgId (snd (send cmd payload ms st)) = msgId st + 1)"
  by (auto simp: send_def Let_def new_promise_def setTimeout_def add_timer_def
      ws_send_def split: prod.splits jsval.splits json.splits)


lemma reply_ids:
  "request_ids (sent (snd (reply i p e st))) = request_ids (sent st) \<and>
   msgId (snd (reply i p e st)) = msgId st"
  by (simp add: reply_def Let_def ws_send_def)

lemma replyFunc_ids:
  "request_ids (sent (snd (replyFunc i arg e st))) = request_ids (sent st) \<and>
   msgId (snd (replyFunc i arg e st)) = msgId st"
proof -
  have "request_ids (sent (snd (case reply i v e st of
          (Inl x, st1) \<Rightarrow> reply i x True st1 | (Inr u, st1) \<Rightarrow> (Inr u, st1)))) =
        request_ids (sent st) \<and>
        msgId (snd (case reply i v e st of
          (Inl x, st1) \<Rightarrow> reply i x True st1 | (Inr u, st1) \<Rightarrow> (Inr u, st1))) = msgId st" for v
    using reply_ids [of i v e st] reply_ids [of i _ True "snd (reply i v e st)"]
    by (cases "reply i v e st") (auto split: sum.splits)
  then show ?thesis
    using reply_ids [of i _ True st]
    by (simp add: replyFunc_def split: reply_arg.splits awaited.splits)
qed

lemma settle_fields [simp]:
  "sent (settle p v st) = sent st" "msgId (settle p v st) = msgId st"
  "timers (settle p v st) = timers st" "destroyed (settle p v st) = destroyed st"
  "awaitingReply (settle p v st) = awaitingReply st"
  "awaitingBinaryReply (settle p v st) = awaitingBinaryReply st"
  "console (settle p v st) = console st" "ws (settle p v st) = ws st"
  "listeners (settle p v st) = listeners st" "host (settle p v st) = host st"
  by (simp_all add: settle_def)

lemma clearTimeout_fields [simp]:
  "sent (clearTimeout k st) = sent st" "msgId (clearTimeout k st) = msgId st"
  "promises (clearTimeout k st) = promises st" "destroyed (clearTimeout k st) = destroyed st"
  "awaitingReply (clearTimeout k st) = awaitingReply st"
  "awaitingBinaryReply (clearTimeout k st) = awaitingBinaryReply st"
  "console (clearTimeout k st) = console st" "ws (clearTimeout k st) = ws st"
  "listeners (clearTimeout k st) = listeners st" "host (clearTimeout k st) = host st"
  "delivered (clearTimeout k st) = delivered st"
  by (simp_all add: clearTimeout_def)

lemma fire_timer_fields [simp]:
  "sent (fire_timer k st) = sent st" "msgId (fire_timer k st) = msgId st"
  "destroyed (fire_timer k st) = destroyed st"
  "awaitingReply (fire_timer k st) = awaitingReply st"
  "awaitingBinaryReply (fire_timer k st) = awaitingBinaryReply st"
  by (simp_all add: fire_timer_def Let_def split: timer_handler.splits)

lemma on_reply_ids:
  "sent (snd (on_reply c p i st)) = sent st \<and> msgId (snd (on_reply c p i st)) = msgId st"
  by (simp add: on_reply_def Let_def split: option.splits)

lemma on_command_ids:
  "request_ids (sent (snd (on_command c p i st))) = request_ids (sent st) \<and>
   msgId (snd (on_command c p i st)) = msgId st"
proof (cases "emit c [ReplyFunc (val i), val p] st")
  case (Pair r st1)
  then have e: "sent st1 = sent st" "msgId st1 = msgId st"
    using emit_fields(3,5) [of c "[ReplyFunc (val i), val p]" st] by simp_all
  show ?thesis
    using Pair e reply_ids [of "val i" _ True st1]
    by (cases r) (auto simp: on_command_def)
qed

lemma onMessage_ids:
  "request_ids (sent (snd (onMessage data st))) = request_ids (sent st) \<and>
   msgId (snd (onMessage data st)) = msgId st"
proof (cases data)
  case (Binary_data d)
  then show ?thesis by (simp add: onMessage_def Let_def split: option.splits)
next
  case (Text_data parsed)
  show ?thesis
  proof (cases "destroyed st \<or> parsed = None")
    case True
    with Text_data show ?thesis by (auto simp: onMessage_def)
  next
    case False
    then obtain v where v: "parsed = Some v" and d: "\<not> destroyed st" by auto
    show ?thesis
    proof (cases "destructure v")
      case (Inl e)
      with Text_data v d show ?thesis by (simp add: onMessage_def)
    next
      case (Inr t)
      obtain cmd pl ident where t: "t = (cmd, pl, ident)" by (cases t)
      show ?thesis
        using Text_data v d Inr t
          on_reply_ids [of _ pl ident "dbg ''incoming'' st"]
          on_command_ids [of _ pl ident "dbg ''incoming'' st"]
        by (cases cmd) (simp_all add: onMessage_def Let_def)
    qed
  qed
qed

lemma changeWebSocket_ids:
  "sent (snd (changeWebSocket t st)) = sent st \<and> msgId (snd (changeWebSocket t st)) = msgId st"
  by simp

lemma step_ids:
  "(request_ids (sent (step x st)) = request_ids (sent st) \<and> msgId (step x st) = msgId st) \<or>
   (request_ids (sent (step x st)) = request_ids (sent st) @ [int (msgId st)] \<and>
    msgId (step x st) = msgId st + 1)"
proof (cases x)
  case (Send cmd payload ms)
  with send_sent_msgId [of cmd payload ms st] show ?thesis
    by (auto simp: step_def)
next
  case (ChangeWebSocket t)
  with changeWebSocket_ids [of t st] show ?thesis by (simp add: step_def)
next
  case (Message data)
  with onMessage_ids [of data st] show ?thesis by (simp add: step_def)
next
  case (Reply i arg e)
  with replyFunc_ids [of i arg e st] show ?thesis by (simp add: step_def)
qed (simp_all add: step_def removeAllListeners_def split: option.splits)

lemma ids_ok_step: "ids_ok st \<Longrightarrow> ids_ok (step x st)"
  using step_ids [of x st] by (auto simp: ids_ok_def)

lemma ids_ok_run: "ids_ok st \<Longrightarrow> ids_ok (run ops st)"
  by (induction ops arbitrary: st) (simp_all add: run_def ids_ok_step)

lemma msgId_step: "msgId st \<le> msgId (step x st)"
  using step_ids [of x st] by auto

lemma sorted_ints: "sorted_wrt (<) (map int [0..<n])"
  by (simp add: sorted_wrt_map)

lemma distinct_ints: "distinct (map int [0..<n])"
  by (simp add: distinct_map)


section \<open>Consistency is kept\<close>

lemma holder_ok_cong:
  "timers st' = timers st \<Longrightarrow> holder_ok st' a = holder_ok st a"
  by (simp add: holder_ok_def)

lemma timer_ok_cong:
  "timers st' = timers st \<Longrightarrow> promises st' = promises st \<Longrightarrow> timer_ok st' k = timer_ok st k"
  by (simp add: timer_ok_def)

lemma rejecters_unique_cong:
  "timers st' = timers st \<Longrightarrow> rejecters_unique st' = rejecters_unique st"
  by (simp add: rejecters_unique_def)

lemma consistent_shrink:
  assumes "consistent st" and "timers st' = timers st" and "promises st' = promises st"
    and "set (holders st') \<subseteq> set (holders st)" and "distinct (map a_timer (holders st'))"
  shows "consistent st'"
  unfolding consistent_def
proof (intro conjI ballI allI impI)
  show "distinct (map a_timer (holders st'))" by fact
next
  fix a assume "a \<in> set (holders st')"
  with assms(1,4) have "holder_ok st a" by (auto simp: consistent_def)
  then show "holder_ok st' a" by (simp add: holder_ok_cong [OF assms(2)])
next
  fix k assume "k < length (timers st')"
  with assms(1,2) have "timer_ok st k" by (simp add: consistent_def)
  then show "timer_ok st' k" by (simp add: timer_ok_cong [OF assms(2,3)])
next
  from assms(1) show "rejecters_unique st'"
    by (simp add: consistent_def rejecters_unique_cong [OF assms(2)])
qed

lemma holders_view: "view st' = view st \<Longrightarrow> holders st' = holders st"
  by (simp add: view_def holders_def)

lemma consistent_view_imp:
  assumes "view st' = view st" and "consistent st"
  shows "consistent st'"
proof (rule consistent_shrink [of st])
  show "consistent st" by fact
  show "timers st' = timers st" "promises st' = promises st"
    using assms(1) by (simp_all add: view_def)
  show "set (holders st') \<subseteq> set (holders st)"
    by (simp add: holders_view [OF assms(1)])
  show "distinct (map a_timer (holders st'))"
    using assms(2) by (simp add: holders_view [OF assms(1)] consistent_def)
qed

lemma consistent_view: "view st' = view st \<Longrightarrow> consistent st' = consistent st"
  using consistent_view_imp [of st' st] consistent_view_imp [of st st'] by auto

lemma view_upd [simp]:
  "view (s\<lparr>listeners := x\<rparr>) = view s" "view (s\<lparr>delivered := y\<rparr>) = view s"
  "view (s\<lparr>ws := z\<rparr>) = view s" "view (s\<lparr>destroyed := b\<rparr>) = view s"
  "view (s\<lparr>sent := f\<rparr>) = view s" "view (s\<lparr>console := c\<rparr>) = view s"
  "view (s\<lparr>msgId := n\<rparr>) = view s" "view (s\<lparr>wrappers := w\<rparr>) = view s"
  by (simp_all add: view_def)

lemma view_dbg [simp]: "view (dbg t st) = view st"
  by (simp add: dbg_def)

lemma view_ws_send [simp]: "view (ws_send f st) = view st"
  by (simp add: ws_send_def)

lemma consistent_upd [simp]:
  "consistent (s\<lparr>listeners := x\<rparr>) = consistent s" "consistent (s\<lparr>delivered := y\<rparr>) = consistent s"
  "consistent (s\<lparr>ws := z\<rparr>) = consistent s" "consistent (s\<lparr>destroyed := b\<rparr>) = consistent s"
  "consistent (s\<lparr>sent := f\<rparr>) = consistent s" "consistent (s\<lparr>console := c\<rparr>) = consistent s"
  "consistent (s\<lparr>msgId := n\<rparr>) = consistent s"
  "consistent (s\<lparr>wrappers := w\<rparr>) = consistent s"
  by (rule consistent_view, simp)+

lemma consistent_dbg [simp]: "consistent (dbg t st) = consistent st"
  by (rule consistent_view) simp

lemma consistent_ws_send [simp]: "consistent (ws_send f st) = consistent st"
  by (rule consistent_view) simp

lemma consistent_clear: "consistent st \<Longrightarrow> consistent (st\<lparr>awaitingReply := []\<rparr>)"
  by (rule consistent_shrink [of st]) (auto simp: holders_def split: option.splits)

lemma consistent_new: "consistent (new_endpoint h d b c)"
  by (simp add: consistent_def new_endpoint_def holders_def rejecters_unique_def)


lemma clearTimeout_timers [simp]:
  "length (timers (clearTimeout k st)) = length (timers st)"
  "t_handler (timers (clearTimeout k st) ! j) = t_handler (timers st ! j)"
  "t_args (timers (clearTimeout k st) ! j) = t_args (timers st ! j)"
  by (auto simp: clearTimeout_def nth_list_update)

lemma clearTimeout_status:
  "t_status (timers (clearTimeout k st) ! j) =
     (if j = k \<and> k < length (timers st) \<and> t_status (timers st ! k) = Armed then Cleared
      else t_status (timers st ! j))"
  by (auto simp: clearTimeout_def nth_list_update)

lemma settle_promises:
  "length (promises (settle p v st)) = length (promises st)"
  "promises (settle p v st) ! q =
     (if q = p \<and> p < length (promises st) \<and> promises st ! p = Pending then v
      else promises st ! q)"
  by (auto simp: settle_def nth_list_update)

lemma settle_after_clear [simp]:
  "promises (settle p v (clearTimeout k st)) = promises (settle p v st)"
  by (simp add: settle_def)

lemma consistent_holder: "consistent st \<Longrightarrow> a \<in> set (holders st) \<Longrightarrow> holder_ok st a"
  by (simp add: consistent_def)

lemma consistent_timer: "consistent st \<Longrightarrow> k < length (timers st) \<Longrightarrow> timer_ok st k"
  by (simp add: consistent_def)

lemma consistent_unique:
  "consistent st \<Longrightarrow> k < length (timers st) \<Longrightarrow> j < length (timers st) \<Longrightarrow>
     t_handler (timers st ! k) = Reject_promise q \<Longrightarrow>
     t_handler (timers st ! j) = Reject_promise q \<Longrightarrow> k = j"
  unfolding consistent_def rejecters_unique_def by blast

lemma consistent_inj:
  "consistent st \<Longrightarrow> a \<in> set (holders st) \<Longrightarrow> b \<in> set (holders st) \<Longrightarrow>
     a_timer a = a_timer b \<Longrightarrow> a = b"
  unfolding consistent_def using distinct_map [of a_timer "holders st"] by (auto dest: inj_onD)

lemma consistent_settle:
  assumes w: "consistent st" and a: "a \<in> set (holders st)" and r: "r \<noteq> Pending"
    and t: "timers st' = timers (clearTimeout (a_timer a) st)"
    and p: "promises st' = promises (settle (a_promise a) r st)"
    and h: "set (holders st') \<subseteq> set (holders st) - {a}"
    and d: "distinct (map a_timer (holders st'))"
  shows "consistent st'"
  unfolding consistent_def
proof (intro conjI ballI allI impI)
  show "distinct (map a_timer (holders st'))" by fact
next
  fix b assume "b \<in> set (holders st')"
  with h have b: "b \<in> set (holders st)" "b \<noteq> a" by auto
  with w a have "a_timer b \<noteq> a_timer a" using consistent_inj by blast
  with consistent_holder [OF w b(1)] show "holder_ok st' b"
    by (simp add: holder_ok_def t clearTimeout_status)
next
  fix k assume "k < length (timers st')"
  then have k: "k < length (timers st)" by (simp add: t)
  from consistent_holder [OF w a] have a0: "a_timer a < length (timers st)"
    "t_handler (timers st ! a_timer a) = Reject_promise (a_promise a)"
    "t_status (timers st ! a_timer a) \<noteq> Cleared"
    by (simp_all add: holder_ok_def)
  note tk = consistent_timer [OF w k]
  show "timer_ok st' k"
  proof (cases "k = a_timer a")
    case True
    with tk a0 r show ?thesis
      by (cases "t_status (timers st ! a_timer a)")
        (auto simp: timer_ok_def t p clearTimeout_status settle_promises)
  next
    case False
    have "q \<noteq> a_promise a" if "t_handler (timers st ! k) = Reject_promise q" for q
      using consistent_unique [OF w k a0(1) that] a0(2) False by auto
    with tk False show ?thesis
      by (auto simp: timer_ok_def t p clearTimeout_status settle_promises)
  qed
next
  from w show "rejecters_unique st'"
    by (simp add: consistent_def rejecters_unique_def t)
qed

lemma fire_timer_timers [simp]:
  "length (timers (fire_timer k st)) = length (timers st)"
  "t_handler (timers (fire_timer k st) ! j) = t_handler (timers st ! j)"
  "t_args (timers (fire_timer k st) ! j) = t_args (timers st ! j)"
  by (auto simp: fire_timer_def Let_def nth_list_update split: timer_handler.splits)

lemma fire_timer_status:
  "t_status (timers (fire_timer k st) ! j) =
     (if j = k \<and> k < length (timers st) \<and> t_status (timers st ! k) = Armed then Fired
      else t_status (timers st ! j))"
  by (auto simp: fire_timer_def Let_def nth_list_update split: timer_handler.splits)

lemma fire_timer_promises:
  "length (promises (fire_timer k st)) = length (promises st)"
  "promises (fire_timer k st) ! q =
     (if k < length (timers st) \<and> t_status (timers st ! k) = Armed \<and>
         t_handler (timers st ! k) = Reject_promise q \<and>
         q < length (promises st) \<and> promises st ! q = Pending
      then Rejected (case t_args (timers st ! k) of [] \<Rightarrow> Undefined | e # es \<Rightarrow> e)
      else promises st ! q)"
  by (auto simp: fire_timer_def Let_def settle_def nth_list_update split: timer_handler.splits)

lemma holders_fire_timer [simp]: "holders (fire_timer k st) = holders st"
  by (simp add: holders_def)

lemma consistent_fire_timer:
  assumes w: "consistent st"
  shows "consistent (fire_timer k st)"
  unfolding consistent_def
proof (intro conjI ballI allI impI)
  show "distinct (map a_timer (holders (fire_timer k st)))"
    using w by (simp add: consistent_def)
next
  fix b assume "b \<in> set (holders (fire_timer k st))"
  then have "holder_ok st b" using w by (simp add: consistent_holder)
  then show "holder_ok (fire_timer k st) b"
    by (simp add: holder_ok_def fire_timer_status)
next
  fix j assume "j < length (timers (fire_timer k st))"
  then have j: "j < length (timers st)" by simp
  note tj = consistent_timer [OF w j]
  show "timer_ok (fire_timer k st) j"
  proof (cases "k < length (timers st) \<and> t_status (timers st ! k) = Armed")
    case False
    with tj show ?thesis
      by (auto simp: timer_ok_def fire_timer_status fire_timer_promises)
  next
    case True
    note tk = consistent_timer [OF w conjunct1 [OF True]]
    show ?thesis
    proof (cases "j = k")
      case True
      with tj \<open>k < length (timers st) \<and> t_status (timers st ! k) = Armed\<close> show ?thesis
        by (auto simp: timer_ok_def fire_timer_status fire_timer_promises)
    next
      case False
      have "t_handler (timers st ! k) \<noteq> Reject_promise q"
        if "t_handler (timers st ! j) = Reject_promise q" for q
        using consistent_unique [OF w j conjunct1 [OF True] that] False by auto
      with tj False show ?thesis
        by (auto simp: timer_ok_def fire_timer_status fire_timer_promises)
    qed
  qed
next
  from w show "rejecters_unique (fire_timer k st)"
    by (simp add: consistent_def rejecters_unique_def)
qed


lemma update_values:
  "set (map snd (AList.update k v m)) \<subseteq> insert v (set (map snd m))"
  by (induction m) auto

lemma update_values_map:
  "set (map f (map snd (AList.update k v m))) \<subseteq> insert (f v) (set (map f (map snd m)))"
  by (induction m) auto

lemma distinct_update:
  "distinct (map f (map snd m)) \<Longrightarrow> f v \<notin> set (map f (map snd m)) \<Longrightarrow>
     distinct (map f (map snd (AList.update k v m)))"
proof (induction m)
  case Nil
  then show ?case by simp
next
  case (Cons e m)
  obtain k' v' where e: "e = (k', v')" by (cases e)
  from Cons.prems e have p: "f v' \<notin> set (map f (map snd m))" "f v \<noteq> f v'"
    "distinct (map f (map snd m))" "f v \<notin> set (map f (map snd m))"
    by simp_all
  show ?case
  proof (cases "k' = k")
    case True
    with p e show ?thesis by simp
  next
    case False
    from update_values_map [of f k v m] p(1,2)
    have "f v' \<notin> set (map f (map snd (AList.update k v m)))" by (metis insertE subsetD)
    with Cons.IH [OF p(3,4)] e False show ?thesis by simp
  qed
qed

lemma consistent_send:
  assumes w: "consistent st"
  shows "consistent (st\<lparr>promises := promises st @ [Pending],
                 timers := timers st @ [\<lparr>t_status = Armed,
                    t_handler = Reject_promise (length (promises st)),
                    t_delay = dl, t_args = [timeout_error c ms]\<rparr>],
                 awaitingReply := AList.update n
                    \<lparr>a_timer = length (timers st), a_promise = length (promises st)\<rparr>
                    (awaitingReply st)\<rparr>)"
    (is "consistent ?st")
proof -
  let ?a = "\<lparr>a_timer = length (timers st), a_promise = length (promises st)\<rparr>"
  let ?m = "awaitingReply st"
  let ?slot = "case awaitingBinaryReply st of None \<Rightarrow> [] | Some a \<Rightarrow> [a]"
  have hst: "holders st = map snd ?m @ ?slot"
    and hst': "holders ?st = map snd (AList.update n ?a ?m) @ ?slot"
    by (simp_all add: holders_def)
  have old: "a_timer b < length (timers st)" if "b \<in> set (holders st)" for b
    using consistent_holder [OF w that] by (simp add: holder_ok_def)
  have hs: "set (holders ?st) \<subseteq> insert ?a (set (holders st))"
    using update_values [of n ?a ?m] unfolding hst hst' by auto
  have fresh: "a_timer ?a \<notin> set (map a_timer (holders st))"
  proof
    assume "a_timer ?a \<in> set (map a_timer (holders st))"
    then obtain b where "b \<in> set (holders st)" "a_timer b = a_timer ?a" by auto
    with old [of b] show False by simp
  qed
  have dh: "distinct (map a_timer (holders st))"
    using w by (simp add: consistent_def)
  have d1: "distinct (map a_timer (map snd (AList.update n ?a ?m)))"
    using dh fresh unfolding hst by (intro distinct_update) simp_all
  have sub: "set (map a_timer (map snd (AList.update n ?a ?m))) \<subseteq>
      insert (a_timer ?a) (set (map a_timer (map snd ?m)))"
    by (rule update_values_map)
  have 1: "distinct (map a_timer (holders ?st))"
  proof (cases "awaitingBinaryReply st")
    case None
    with d1 show ?thesis by (simp add: hst')
  next
    case (Some s)
    from dh Some have "a_timer s \<notin> set (map a_timer (map snd ?m))"
      unfolding hst by simp
    moreover from fresh Some have "a_timer s \<noteq> a_timer ?a"
      unfolding hst by simp
    ultimately have "a_timer s \<notin> set (map a_timer (map snd (AList.update n ?a ?m)))"
      using sub by (metis insertE subsetD)
    with d1 Some show ?thesis unfolding hst' by simp
  qed
  have 2: "holder_ok ?st b" if "b \<in> set (holders ?st)" for b
  proof (cases "b = ?a")
    case True
    then show ?thesis by (simp add: holder_ok_def)
  next
    case False
    with that hs have b: "b \<in> set (holders st)" by blast
    with consistent_holder [OF w b] show ?thesis
      by (simp add: holder_ok_def nth_append)
  qed
  have 3: "timer_ok ?st k" if "k < length (timers ?st)" for k
  proof (cases "k < length (timers st)")
    case True
    with consistent_timer [OF w True] show ?thesis
      by (auto simp: timer_ok_def nth_append)
  next
    case False
    with that have "k = length (timers st)" by simp
    then show ?thesis by (auto simp: timer_ok_def)
  qed
  have 4: "rejecters_unique ?st"
    unfolding rejecters_unique_def
  proof (intro allI impI)
    fix k j q
    assume k: "k < length (timers ?st)" and j: "j < length (timers ?st)"
      and e: "t_handler (timers ?st ! k) = Reject_promise q \<and>
              t_handler (timers ?st ! j) = Reject_promise q"
    have lt: "q < length (promises st)"
      if "i < length (timers st)" "t_handler (timers st ! i) = Reject_promise q" for i q
      using consistent_timer [OF w that(1)] that(2) by (simp add: timer_ok_def)
    show "k = j"
    proof (cases "k < length (timers st)"; cases "j < length (timers st)")
      assume "k < length (timers st)" "j < length (timers st)"
      with e consistent_unique [OF w, of k j q] show ?thesis by (simp add: nth_append)
    next
      assume a: "k < length (timers st)" "\<not> j < length (timers st)"
      with j have "j = length (timers st)" by simp
      with a e lt [of k q] show ?thesis by (auto simp: nth_append)
    next
      assume a: "\<not> k < length (timers st)" "j < length (timers st)"
      with k have "k = length (timers st)" by simp
      with a e lt [of j q] show ?thesis by (auto simp: nth_append)
    next
      assume "\<not> k < length (timers st)" "\<not> j < length (timers st)"
      with k j show ?thesis by simp
    qed
  qed
  from 1 2 3 4 show ?thesis unfolding consistent_def by blast
qed

lemma consistent_stray:
  assumes w: "consistent st"
  shows "consistent (st\<lparr>timers := timers st @
      [\<lparr>t_status = Armed, t_handler = Not_a_function v, t_delay = dl, t_args = args\<rparr>]\<rparr>)"
    (is "consistent ?st")
proof -
  have h: "holders ?st = holders st" by (simp add: holders_def)
  have 1: "distinct (map a_timer (holders ?st))"
    using w by (simp add: h consistent_def)
  have 2: "holder_ok ?st a" if "a \<in> set (holders ?st)" for a
    using consistent_holder [OF w, of a] that by (simp add: h holder_ok_def nth_append)
  have 3: "timer_ok ?st k" if "k < length (timers ?st)" for k
  proof (cases "k < length (timers st)")
    case True
    with consistent_timer [OF w True] show ?thesis by (auto simp: timer_ok_def nth_append)
  next
    case False
    with that have "k = length (timers st)" by simp
    then show ?thesis by (simp add: timer_ok_def)
  qed
  have 4: "rejecters_unique ?st"
    unfolding rejecters_unique_def
  proof (intro allI impI)
    fix k j q
    assume k: "k < length (timers ?st)" and j: "j < length (timers ?st)"
      and e: "t_handler (timers ?st ! k) = Reject_promise q \<and>
              t_handler (timers ?st ! j) = Reject_promise q"
    from e k have k': "k < length (timers st)"
      by (cases "k = length (timers st)") auto
    from e j have j': "j < length (timers st)"
      by (cases "j = length (timers st)") auto
    from e k' j' consistent_unique [OF w k' j', of q] show "k = j" by (simp add: nth_append)
  qed
  from 1 2 3 4 show ?thesis unfolding consistent_def by blast
qed


lemma delete_values:
  assumes d: "distinct (map f (map snd m))" and g: "map_of m key = Some a"
  shows "set (map snd (AList.delete key m)) \<subseteq> set (map snd m) - {a}"
proof
  fix b assume "b \<in> set (map snd (AList.delete key m))"
  then obtain k where kb: "(k, b) \<in> set m" "k \<noteq> key"
    by (auto simp: AList.delete_eq)
  from g have ka: "(key, a) \<in> set m" by (rule map_of_SomeD)
  from d have "inj_on (f \<circ> snd) (set m)" by (simp add: distinct_map)
  have "b \<noteq> a"
  proof
    assume "b = a"
    with kb ka \<open>inj_on (f \<circ> snd) (set m)\<close> have "(k, b) = (key, a)"
      by (auto dest!: inj_onD [where x = "(k, b)" and y = "(key, a)"])
    with kb(2) show False by simp
  qed
  with kb(1) show "b \<in> set (map snd m) - {a}" by force
qed

lemma delete_values_map:
  "set (map f (map snd (AList.delete key m))) \<subseteq> set (map f (map snd m))"
  by (auto simp: AList.delete_eq)

lemma delete_distinct:
  "distinct (map f (map snd m)) \<Longrightarrow> distinct (map f (map snd (AList.delete key m)))"
  by (simp add: AList.delete_eq distinct_map_filter)

lemma awaiting_get_Some:
  "awaiting_get m ident = Some a \<Longrightarrow>
     \<exists>key. map_of m key = Some a \<and> awaiting_delete ident m = AList.delete key m"
  by (auto simp: awaiting_get_def awaiting_delete_def split: option.splits)

lemma holders_parts:
  "holders st = map snd (awaitingReply st) @
     (case awaitingBinaryReply st of None \<Rightarrow> [] | Some a \<Rightarrow> [a])"
  by (simp add: holders_def)

lemma consistent_parts:
  assumes "consistent st"
  shows "distinct (map a_timer (map snd (awaitingReply st)))"
    and "awaitingBinaryReply st = Some s \<Longrightarrow> a_timer s \<notin> set (map a_timer (map snd (awaitingReply st)))"
  using assms by (auto simp: consistent_def holders_def)

lemma in_holders_map: "map_of (awaitingReply st) key = Some a \<Longrightarrow> a \<in> set (holders st)"
  by (force simp: holders_def dest: map_of_SomeD)

lemma in_holders_slot: "awaitingBinaryReply st = Some a \<Longrightarrow> a \<in> set (holders st)"
  by (simp add: holders_def)

text \<open>Removing the settled entry from the map.\<close>

lemma holders_after_delete:
  assumes w: "consistent st" and g: "map_of (awaitingReply st) key = Some a"
    and m: "awaitingReply st' = AList.delete key (awaitingReply st)"
    and s: "awaitingBinaryReply st' = awaitingBinaryReply st"
  shows "set (holders st') \<subseteq> set (holders st) - {a}"
    and "distinct (map a_timer (holders st'))"
proof -
  note d = consistent_parts(1) [OF w]
  note dv = delete_values [OF d g]
  have slot: "a_timer s \<noteq> a_timer a" if "awaitingBinaryReply st = Some s" for s
  proof -
    from g have "(key, a) \<in> set (awaitingReply st)" by (rule map_of_SomeD)
    then have "a_timer a \<in> set (map a_timer (map snd (awaitingReply st)))" by force
    with consistent_parts(2) [OF w that] show ?thesis by metis
  qed
  show "set (holders st') \<subseteq> set (holders st) - {a}"
  proof (cases "awaitingBinaryReply st")
    case None
    with dv show ?thesis by (auto simp: holders_parts m s)
  next
    case (Some s0)
    with slot [OF Some] have "s0 \<noteq> a" by auto
    with dv Some show ?thesis by (auto simp: holders_parts m s)
  qed
  have "a_timer s \<notin> set (map a_timer (map snd (AList.delete key (awaitingReply st))))"
    if "awaitingBinaryReply st = Some s" for s
    using consistent_parts(2) [OF w that] delete_values_map [of a_timer key "awaitingReply st"]
    by (metis subsetD)
  then show "distinct (map a_timer (holders st'))"
    using delete_distinct [OF d, of key]
    by (auto simp: holders_parts m s split: option.splits)
qed

text \<open>Moving the entry from the map to the binary slot.\<close>

lemma holders_after_move:
  assumes w: "consistent st" and g: "map_of (awaitingReply st) key = Some a"
    and m: "awaitingReply st' = AList.delete key (awaitingReply st)"
    and s: "awaitingBinaryReply st' = Some a"
  shows "set (holders st') \<subseteq> set (holders st)"
    and "distinct (map a_timer (holders st'))"
proof -
  note d = consistent_parts(1) [OF w]
  note dv = delete_values [OF d g]
  from g have ka: "(key, a) \<in> set (awaitingReply st)" by (rule map_of_SomeD)
  show "set (holders st') \<subseteq> set (holders st)"
    using dv ka by (force simp: holders_parts m s)
  have "a_timer a \<notin> set (map a_timer (map snd (AList.delete key (awaitingReply st))))"
  proof
    assume "a_timer a \<in> set (map a_timer (map snd (AList.delete key (awaitingReply st))))"
    then obtain b where b: "b \<in> set (map snd (AList.delete key (awaitingReply st)))"
      "a_timer b = a_timer a" by (metis (no_types) imageE list.set_map)
    with dv have b': "b \<in> set (map snd (awaitingReply st))" "b \<noteq> a" by auto
    then have "b \<in> set (holders st)" by (simp add: holders_parts)
    with consistent_inj [OF w this in_holders_map [OF g] b(2)] b'(2) show False by simp
  qed
  then show "distinct (map a_timer (holders st'))"
    using delete_distinct [OF d, of key] by (simp add: holders_parts m s)
qed

text \<open>Emptying the binary slot.\<close>

lemma holders_after_slot:
  assumes w: "consistent st" and g: "awaitingBinaryReply st = Some a"
    and m: "awaitingReply st' = awaitingReply st"
    and s: "awaitingBinaryReply st' = None"
  shows "set (holders st') \<subseteq> set (holders st) - {a}"
    and "distinct (map a_timer (holders st'))"
proof -
  have "b \<noteq> a" if "b \<in> set (map snd (awaitingReply st))" for b
  proof
    assume "b = a"
    with that have "a_timer a \<in> set (map a_timer (map snd (awaitingReply st)))" by auto
    with consistent_parts(2) [OF w g] show False by simp
  qed
  then show "set (holders st') \<subseteq> set (holders st) - {a}"
    by (auto simp: holders_parts m s g)
  show "distinct (map a_timer (holders st'))"
    using consistent_parts(1) [OF w] by (simp add: holders_parts m s)
qed


lemma consistent_emit_inner: "consistent st \<Longrightarrow> consistent (snd (emit_with (\<lambda>s. s) n a st))"
  by (rule inv_emit_with) simp_all

lemma consistent_destroy: "consistent st \<Longrightarrow> consistent (destroy st)"
proof -
  assume w: "consistent st"
  let ?s = "st\<lparr>destroyed := True, awaitingReply := []\<rparr>"
  have c: "consistent ?s"
    using consistent_clear [of "st\<lparr>destroyed := True\<rparr>"] w by simp
  then have "consistent (?s\<lparr>ws := x\<rparr>)" for x by simp
  then have "consistent (snd (emit_with (\<lambda>s. s) n a (?s\<lparr>ws := x\<rparr>)))" for n a x
    by (rule consistent_emit_inner)
  with c w show ?thesis
    by (simp add: destroy_def Let_def removeAllListeners_def split: option.splits)
qed

lemma consistent_emit: "consistent st \<Longrightarrow> consistent (snd (emit n a st))"
  unfolding emit_def by (rule inv_emit_with) (simp_all add: consistent_destroy)

lemma view_reply [simp]: "view (snd (reply i p e st)) = view st"
  by (simp add: reply_def Let_def)

lemma view_replyFunc [simp]: "view (snd (replyFunc i arg e st)) = view st"
proof -
  have "view (snd (case reply i v e st of
          (Inl x, st1) \<Rightarrow> reply i x True st1 | (Inr u, st1) \<Rightarrow> (Inr u, st1))) = view st" for v
    using view_reply [of i v e st] view_reply [of i _ True "snd (reply i v e st)"]
    by (cases "reply i v e st") (auto split: sum.splits)
  then show ?thesis
    by (simp add: replyFunc_def split: reply_arg.splits awaited.splits)
qed

lemma consistent_reply: "consistent st \<Longrightarrow> consistent (snd (reply i p e st))"
  by (rule consistent_view_imp [of _ st]) simp_all

lemma consistent_replyFunc: "consistent st \<Longrightarrow> consistent (snd (replyFunc i arg e st))"
  by (rule consistent_view_imp [of _ st]) simp_all

lemma send_view:
  "view (snd (send cmd payload ms st)) = view st \<or>
   (\<exists>c m. view (snd (send cmd payload ms st)) =
      (AList.update (msgId st) \<lparr>a_timer = length (timers st), a_promise = length (promises st)\<rparr>
         (awaitingReply st),
       awaitingBinaryReply st,
       timers st @ [\<lparr>t_status = Armed, t_handler = Reject_promise (length (promises st)),
          t_delay = Millis m, t_args = [timeout_error c m]\<rparr>],
       promises st @ [Pending]))"
  by (auto simp: send_def Let_def new_promise_def setTimeout_def add_timer_def dbg_def
      ws_send_def view_def split: jsval.splits json.splits)

lemma consistent_send_op: "consistent st \<Longrightarrow> consistent (snd (send cmd payload ms st))"
proof -
  assume w: "consistent st"
  from send_view [of cmd payload ms st] show ?thesis
  proof (elim disjE exE)
    assume "view (snd (send cmd payload ms st)) = view st"
    then show ?thesis using w by (rule consistent_view_imp)
  next
    fix c m
    assume v: "view (snd (send cmd payload ms st)) =
      (AList.update (msgId st) \<lparr>a_timer = length (timers st), a_promise = length (promises st)\<rparr>
         (awaitingReply st),
       awaitingBinaryReply st,
       timers st @ [\<lparr>t_status = Armed, t_handler = Reject_promise (length (promises st)),
          t_delay = Millis m, t_args = [timeout_error c m]\<rparr>],
       promises st @ [Pending])"
    show ?thesis
      by (rule consistent_view_imp [OF _ consistent_send [OF w, where dl = "Millis m" and c = c
            and ms = m and n = "msgId st"]]) (simp add: v, simp add: view_def)
  qed
qed

lemma consistent_subscribe:
  "consistent st \<Longrightarrow> consistent (on_event n f st)"
  "consistent st \<Longrightarrow> consistent (once_event n f st)"
  by (rule inv_on_event [of consistent]; simp add: consistent_emit)
    (rule inv_once_event [of consistent]; simp add: consistent_emit)

lemma consistent_changeWebSocket:
  "consistent st \<Longrightarrow> consistent (snd (changeWebSocket t st))"
  by (rule inv_changeWebSocket [of consistent])
    (simp_all add: consistent_emit consistent_stray)


lemma call_timers_promises [simp]:
  "timers (call_resolve a v st) = timers (clearTimeout (a_timer a) st)"
  "timers (call_reject a v st) = timers (clearTimeout (a_timer a) st)"
  "promises (call_resolve a v st) = promises (settle (a_promise a) (Resolved v) st)"
  "promises (call_reject a v st) = promises (settle (a_promise a) (Rejected v) st)"
  by (simp_all add: call_resolve_def call_reject_def)

lemma consistent_on_reply: "consistent st \<Longrightarrow> consistent (snd (on_reply c p i st))"
proof (cases "awaiting_get (awaitingReply st) i")
  case None
  assume "consistent st"
  with None show ?thesis by (simp add: on_reply_def)
next
  case (Some a)
  assume w: "consistent st"
  from awaiting_get_Some [OF Some] obtain key
    where g: "map_of (awaitingReply st) key = Some a"
      and d: "awaiting_delete i (awaitingReply st) = AList.delete key (awaitingReply st)"
    by blast
  note ah = in_holders_map [OF g]
  show ?thesis
  proof (cases "c = JStr ''int:reply''")
    case True
    let ?st' = "(call_resolve a (val p) st)
        \<lparr>awaitingReply := AList.delete key (awaitingReply st)\<rparr>"
    have "consistent ?st'"
      by (rule consistent_settle [OF w ah, of "Resolved (val p)"])
        (simp_all add: holders_after_delete [OF w g])
    with Some True d show ?thesis by (simp add: on_reply_def Let_def)
  next
    case False
    note nr = False
    show ?thesis
    proof (cases "c = JStr ''int:errorReply''")
      case True
      let ?st' = "(call_reject a (val p) st)
          \<lparr>awaitingReply := AList.delete key (awaitingReply st)\<rparr>"
      have "consistent ?st'"
        by (rule consistent_settle [OF w ah, of "Rejected (val p)"])
          (simp_all add: holders_after_delete [OF w g])
      with Some True nr d show ?thesis by (simp add: on_reply_def Let_def)
    next
      case False
      let ?st' = "st\<lparr>awaitingBinaryReply := Some a,
          awaitingReply := AList.delete key (awaitingReply st)\<rparr>"
      have "consistent ?st'"
        by (rule consistent_shrink [OF w]) (simp_all add: holders_after_move [OF w g])
      with Some False nr d show ?thesis by (simp add: on_reply_def Let_def)
    qed
  qed
qed

lemma consistent_on_command: "consistent st \<Longrightarrow> consistent (snd (on_command c p i st))"
proof -
  assume w: "consistent st"
  obtain r st1 where e: "emit c [ReplyFunc (val i), val p] st = (r, st1)"
    by (cases "emit c [ReplyFunc (val i), val p] st")
  with consistent_emit [OF w, of c "[ReplyFunc (val i), val p]"] have w1: "consistent st1" by simp
  show ?thesis
    using e w1 consistent_reply [OF w1, of "val i" _ True]
    by (cases r) (auto simp: on_command_def)
qed

lemma consistent_on_binary:
  assumes w: "consistent st" and s: "awaitingBinaryReply st = Some a"
  shows "consistent ((call_resolve a d (dbg t st))\<lparr>awaitingBinaryReply := None\<rparr>)"
proof -
  have w': "consistent (dbg t st)" using w by simp
  have s': "awaitingBinaryReply (dbg t st) = Some a" using s by simp
  show ?thesis
    by (rule consistent_settle [OF w' in_holders_slot [OF s'], of "Resolved d"])
      (simp_all add: holders_after_slot [OF w' s'])
qed

lemma consistent_onMessage: "consistent st \<Longrightarrow> consistent (snd (onMessage data st))"
proof -
  assume w: "consistent st"
  show ?thesis
  proof (cases data)
    case (Binary_data d)
    with w consistent_on_binary [OF w] show ?thesis
      by (simp add: onMessage_def Let_def split: option.splits)
  next
    case (Text_data parsed)
    show ?thesis
    proof (cases "destroyed st \<or> parsed = None")
      case True
      with Text_data w show ?thesis by (auto simp: onMessage_def)
    next
      case False
      then obtain v where v: "parsed = Some v" and d: "\<not> destroyed st" by auto
      show ?thesis
      proof (cases "destructure v")
        case (Inl e)
        with Text_data v d w show ?thesis by (simp add: onMessage_def)
      next
        case (Inr x)
        obtain cmd pl ident where x: "x = (cmd, pl, ident)" by (cases x)
        have w': "consistent (dbg ''incoming'' st)" using w by simp
        show ?thesis
          using Text_data v d Inr x w
            consistent_on_reply [OF w', of _ pl ident]
            consistent_on_command [OF w', of _ pl ident]
          by (cases cmd) (simp_all add: onMessage_def Let_def)
      qed
    qed
  qed
qed

lemma consistent_step: "consistent st \<Longrightarrow> consistent (step x st)"
proof (cases x)
  case (Send cmd payload ms)
  assume "consistent st"
  with Send show ?thesis by (simp add: step_def consistent_send_op)
next
  case (ChangeWebSocket t)
  assume "consistent st"
  with ChangeWebSocket show ?thesis by (simp add: step_def consistent_changeWebSocket)
next
  case Destroy
  assume "consistent st"
  with Destroy show ?thesis by (simp add: step_def consistent_destroy)
next
  case (Message data)
  assume "consistent st"
  with Message show ?thesis by (simp add: step_def consistent_onMessage)
next
  case (Reply i arg e)
  assume "consistent st"
  with Reply show ?thesis by (simp add: step_def consistent_replyFunc)
next
  case (Fire k)
  assume "consistent st"
  with Fire show ?thesis by (simp add: step_def consistent_fire_timer)
next
  case WsOpen
  assume "consistent st"
  with WsOpen show ?thesis by (simp add: step_def consistent_emit)
next
  case (WsError ev)
  assume "consistent st"
  with WsError show ?thesis by (simp add: step_def consistent_emit)
next
  case (WsClose ev)
  assume "consistent st"
  with WsClose show ?thesis by (simp add: step_def consistent_emit)
next
  case (Subscribe name once k)
  assume "consistent st"
  with Subscribe show ?thesis by (simp add: step_def consistent_subscribe)
next
  case Unsubscribe_all
  assume "consistent st"
  with Unsubscribe_all show ?thesis by (simp add: step_def removeAllListeners_def)
next
  case (ReadyState n)
  assume "consistent st"
  with ReadyState show ?thesis by (simp add: step_def split: option.splits)
qed

lemma consistent_run: "consistent st \<Longrightarrow> consistent (run ops st)"
  by (induction ops arbitrary: st) (simp_all add: run_def consistent_step)


section \<open>An unanswered request\<close>

lemma awaits_keep:
  assumes a: "awaits st n k p e" and c: "consistent st'"
    and t: "k < length (timers st') \<and> t_handler (timers st' ! k) = t_handler (timers st ! k) \<and>
            t_args (timers st' ! k) = t_args (timers st ! k) \<and>
            (t_status (timers st' ! k) = Cleared \<longrightarrow> t_status (timers st ! k) = Cleared)"
    and s: "awaitingBinaryReply st' \<noteq> Some \<lparr>a_timer = k, a_promise = p\<rparr>"
    and m: "\<And>key. map_of (awaitingReply st') key = Some \<lparr>a_timer = k, a_promise = p\<rparr> \<Longrightarrow>
              map_of (awaitingReply st) key = Some \<lparr>a_timer = k, a_promise = p\<rparr>"
  shows "awaits st' n k p e"
  using a c t s m unfolding awaits_def by auto

lemma awaits_view:
  "awaits st n k p e \<Longrightarrow> view st' = view st \<Longrightarrow> awaits st' n k p e"
  by (rule awaits_keep [of st]) (simp_all add: view_def consistent_view_imp awaits_def)

lemma awaits_state:
  assumes "awaits st n k p e"
  shows "p < length (promises st) \<and>
    ((t_status (timers st ! k) = Armed \<and> promises st ! p = Pending) \<or>
     (t_status (timers st ! k) = Fired \<and> promises st ! p = Rejected e))"
proof -
  from assms have k: "k < length (timers st)" and c: "consistent st"
    and h: "t_handler (timers st ! k) = Reject_promise p" and ar: "t_args (timers st ! k) = [e]"
    and nc: "t_status (timers st ! k) \<noteq> Cleared"
    by (simp_all add: awaits_def)
  from consistent_timer [OF c k] h ar nc show ?thesis
    by (cases "t_status (timers st ! k)") (auto simp: timer_ok_def)
qed

lemma awaits_fire:
  assumes "awaits st n k p e"
  shows "promises (fire_timer k st) ! p = Rejected e"
  using awaits_state [OF assms] assms
  by (auto simp: fire_timer_promises awaits_def)

text \<open>A held pair of closures other than the request's own never clears its timer.\<close>

lemma other_holder:
  assumes a: "awaits st n k p e" and b: "b \<in> set (holders st)"
    and ne: "b \<noteq> \<lparr>a_timer = k, a_promise = p\<rparr>"
  shows "a_timer b \<noteq> k"
proof
  assume "a_timer b = k"
  from a have c: "consistent st" and h: "t_handler (timers st ! k) = Reject_promise p"
    by (simp_all add: awaits_def)
  from consistent_holder [OF c b] \<open>a_timer b = k\<close> h have "a_promise b = p"
    by (simp add: holder_ok_def)
  with \<open>a_timer b = k\<close> ne show False by (cases b) simp
qed

lemma awaits_fire_any:
  assumes "awaits st n k p e"
  shows "awaits (fire_timer j st) n k p e"
proof (rule awaits_keep [OF assms])
  from assms show "consistent (fire_timer j st)"
    by (simp add: awaits_def consistent_fire_timer)
  from assms show "k < length (timers (fire_timer j st)) \<and>
      t_handler (timers (fire_timer j st) ! k) = t_handler (timers st ! k) \<and>
      t_args (timers (fire_timer j st) ! k) = t_args (timers st ! k) \<and>
      (t_status (timers (fire_timer j st) ! k) = Cleared \<longrightarrow> t_status (timers st ! k) = Cleared)"
    by (simp add: awaits_def fire_timer_status)
  from assms show "awaitingBinaryReply (fire_timer j st) \<noteq> Some \<lparr>a_timer = k, a_promise = p\<rparr>"
    by (simp add: awaits_def)
qed simp

lemma awaits_cleared_map:
  assumes a: "awaits st n k p e" and c: "consistent st'"
    and t: "timers st' = timers st" and s: "awaitingBinaryReply st' = awaitingBinaryReply st"
    and m: "awaitingReply st' = awaitingReply st \<or> awaitingReply st' = []"
  shows "awaits st' n k p e"
proof (rule awaits_keep [OF a c])
  from a show "k < length (timers st') \<and> t_handler (timers st' ! k) = t_handler (timers st ! k) \<and>
      t_args (timers st' ! k) = t_args (timers st ! k) \<and>
      (t_status (timers st' ! k) = Cleared \<longrightarrow> t_status (timers st ! k) = Cleared)"
    by (simp add: t awaits_def)
  from a show "awaitingBinaryReply st' \<noteq> Some \<lparr>a_timer = k, a_promise = p\<rparr>"
    by (simp add: s awaits_def)
  fix key assume "map_of (awaitingReply st') key = Some \<lparr>a_timer = k, a_promise = p\<rparr>"
  with m show "map_of (awaitingReply st) key = Some \<lparr>a_timer = k, a_promise = p\<rparr>" by auto
qed

lemma awaitingReply_emit:
  "awaitingReply (snd (emit n a st)) = awaitingReply st \<or> awaitingReply (snd (emit n a st)) = []"
  unfolding emit_def
  by (rule inv_emit_with [of "\<lambda>s. awaitingReply s = awaitingReply st \<or> awaitingReply s = []"])
    (auto simp: awaitingReply_destroy)

lemma awaits_emit: "awaits st n k p e \<Longrightarrow> awaits (snd (emit ev args st)) n k p e"
  by (rule awaits_cleared_map [of st])
    (simp_all add: awaits_def consistent_emit awaitingReply_emit)

lemma awaits_destroy: "awaits st n k p e \<Longrightarrow> awaits (destroy st) n k p e"
  by (rule awaits_cleared_map [of st])
    (simp_all add: awaits_def consistent_destroy awaitingReply_destroy)


lemma awaits_send: "awaits st n k p e \<Longrightarrow> awaits (snd (send cmd payload ms st)) n k p e"
proof -
  assume a: "awaits st n k p e"
  then have c: "consistent st" and k: "k < length (timers st)" by (simp_all add: awaits_def)
  from send_view [of cmd payload ms st] show ?thesis
  proof (elim disjE exE)
    assume "view (snd (send cmd payload ms st)) = view st"
    with a show ?thesis by (rule awaits_view)
  next
    fix c' m
    assume v: "view (snd (send cmd payload ms st)) =
      (AList.update (msgId st) \<lparr>a_timer = length (timers st), a_promise = length (promises st)\<rparr>
         (awaitingReply st),
       awaitingBinaryReply st,
       timers st @ [\<lparr>t_status = Armed, t_handler = Reject_promise (length (promises st)),
          t_delay = Millis m, t_args = [timeout_error c' m]\<rparr>],
       promises st @ [Pending])"
    let ?st' = "snd (send cmd payload ms st)"
    from v have f: "awaitingReply ?st' = AList.update (msgId st)
          \<lparr>a_timer = length (timers st), a_promise = length (promises st)\<rparr> (awaitingReply st)"
      "awaitingBinaryReply ?st' = awaitingBinaryReply st"
      "timers ?st' = timers st @ [\<lparr>t_status = Armed,
          t_handler = Reject_promise (length (promises st)),
          t_delay = Millis m, t_args = [timeout_error c' m]\<rparr>]"
      by (simp_all add: view_def)
    show ?thesis
    proof (rule awaits_keep [OF a])
      show "consistent ?st'" using c by (rule consistent_send_op)
      show "k < length (timers ?st') \<and> t_handler (timers ?st' ! k) = t_handler (timers st ! k) \<and>
          t_args (timers ?st' ! k) = t_args (timers st ! k) \<and>
          (t_status (timers ?st' ! k) = Cleared \<longrightarrow> t_status (timers st ! k) = Cleared)"
        using k by (simp add: f nth_append)
      show "awaitingBinaryReply ?st' \<noteq> Some \<lparr>a_timer = k, a_promise = p\<rparr>"
        using a by (simp add: f awaits_def)
      fix key assume "map_of (awaitingReply ?st') key = Some \<lparr>a_timer = k, a_promise = p\<rparr>"
      with k show "map_of (awaitingReply st) key = Some \<lparr>a_timer = k, a_promise = p\<rparr>"
        by (auto simp: f update_conv' split: if_splits)
    qed
  qed
qed

lemma awaits_stray:
  assumes a: "awaits st n k p e"
  shows "awaits (st\<lparr>timers := timers st @
      [\<lparr>t_status = Armed, t_handler = Not_a_function v, t_delay = dl, t_args = args\<rparr>]\<rparr>) n k p e"
    (is "awaits ?st' n k p e")
proof (rule awaits_keep [OF a])
  from a have c: "consistent st" and k: "k < length (timers st)" by (simp_all add: awaits_def)
  show "consistent ?st'" using c by (rule consistent_stray)
  show "k < length (timers ?st') \<and> t_handler (timers ?st' ! k) = t_handler (timers st ! k) \<and>
      t_args (timers ?st' ! k) = t_args (timers st ! k) \<and>
      (t_status (timers ?st' ! k) = Cleared \<longrightarrow> t_status (timers st ! k) = Cleared)"
    using k by (simp add: nth_append)
  show "awaitingBinaryReply ?st' \<noteq> Some \<lparr>a_timer = k, a_promise = p\<rparr>"
    using a by (simp add: awaits_def)
qed simp

lemma awaits_upd [simp]:
  "awaits (s\<lparr>listeners := x\<rparr>) n k p e = awaits s n k p e"
  "awaits (s\<lparr>wrappers := w\<rparr>) n k p e = awaits s n k p e"
  "awaits (s\<lparr>ws := z\<rparr>) n k p e = awaits s n k p e"
  by (simp_all add: awaits_def)

lemma awaits_subscribe:
  "awaits st n k p e \<Longrightarrow> awaits (on_event m f st) n k p e"
  "awaits st n k p e \<Longrightarrow> awaits (once_event m f st) n k p e"
  by (rule inv_on_event [of "\<lambda>s. awaits s n k p e"]; simp add: awaits_emit)
    (rule inv_once_event [of "\<lambda>s. awaits s n k p e"]; simp add: awaits_emit)

lemma awaits_changeWebSocket:
  "awaits st n k p e \<Longrightarrow> awaits (snd (changeWebSocket t st)) n k p e"
  by (rule inv_changeWebSocket [of "\<lambda>s. awaits s n k p e"])
    (simp_all add: awaits_emit awaits_stray)

lemma awaits_reply: "awaits st n k p e \<Longrightarrow> awaits (snd (reply i pl er st)) n k p e"
  by (rule awaits_view) simp_all

lemma awaits_replyFunc: "awaits st n k p e \<Longrightarrow> awaits (snd (replyFunc i arg er st)) n k p e"
  by (rule awaits_view) simp_all

lemma awaits_dbg [simp]: "awaits (dbg t st) n k p e = awaits st n k p e"
  using awaits_view [of st n k p e "dbg t st"] awaits_view [of "dbg t st" n k p e st] by auto

lemma awaiting_get_key:
  "awaiting_get m ident = Some a \<Longrightarrow>
     \<exists>key. awaiting_key ident = Some key \<and> map_of m key = Some a \<and>
       awaiting_delete ident m = AList.delete key m"
  by (auto simp: awaiting_get_def awaiting_delete_def split: option.splits)

lemma awaits_on_reply:
  assumes a: "awaits st n k p e" and o: "awaiting_key i \<noteq> Some n"
  shows "awaits (snd (on_reply c pl i st)) n k p e"
proof (cases "awaiting_get (awaitingReply st) i")
  case None
  with a show ?thesis by (simp add: on_reply_def)
next
  case (Some b)
  from a have w: "consistent st" and kk: "k < length (timers st)" by (simp_all add: awaits_def)
  from awaiting_get_key [OF Some] obtain key
    where ky: "awaiting_key i = Some key" and g: "map_of (awaitingReply st) key = Some b"
      and d: "awaiting_delete i (awaitingReply st) = AList.delete key (awaitingReply st)"
    by blast
  from ky o have kn: "key \<noteq> n" by simp
  have bne: "b \<noteq> \<lparr>a_timer = k, a_promise = p\<rparr>"
    using a g kn by (auto simp: awaits_def)
  note bt = other_holder [OF a in_holders_map [OF g] bne]
  let ?st' = "snd (on_reply c pl i st)"
  have cs: "consistent ?st'" using w by (rule consistent_on_reply)
  have m: "awaitingReply ?st' = AList.delete key (awaitingReply st)"
    using Some d by (simp add: on_reply_def Let_def)
  have t: "timers ?st' = timers st \<or> timers ?st' = timers (clearTimeout (a_timer b) st)"
    using Some by (simp add: on_reply_def Let_def)
  have s: "awaitingBinaryReply ?st' = awaitingBinaryReply st \<or> awaitingBinaryReply ?st' = Some b"
    using Some by (simp add: on_reply_def Let_def)
  show ?thesis
  proof (rule awaits_keep [OF a cs])
    from t kk bt
    show "k < length (timers ?st') \<and> t_handler (timers ?st' ! k) = t_handler (timers st ! k) \<and>
        t_args (timers ?st' ! k) = t_args (timers st ! k) \<and>
        (t_status (timers ?st' ! k) = Cleared \<longrightarrow> t_status (timers st ! k) = Cleared)"
      by (auto simp: clearTimeout_status)
    from s a bne show "awaitingBinaryReply ?st' \<noteq> Some \<lparr>a_timer = k, a_promise = p\<rparr>"
      by (auto simp: awaits_def)
    fix key' assume "map_of (awaitingReply ?st') key' = Some \<lparr>a_timer = k, a_promise = p\<rparr>"
    then show "map_of (awaitingReply st) key' = Some \<lparr>a_timer = k, a_promise = p\<rparr>"
      by (simp add: m delete_conv' split: if_splits)
  qed
qed

lemma awaits_on_command:
  assumes a: "awaits st n k p e"
  shows "awaits (snd (on_command c pl i st)) n k p e"
proof -
  obtain r st1 where em: "emit c [ReplyFunc (val i), val pl] st = (r, st1)"
    by (cases "emit c [ReplyFunc (val i), val pl] st")
  with awaits_emit [OF a, of c "[ReplyFunc (val i), val pl]"] have a1: "awaits st1 n k p e"
    by simp
  show ?thesis
    using em a1 awaits_reply [OF a1, of "val i" _ True]
    by (cases r) (auto simp: on_command_def)
qed

lemma awaits_on_binary:
  assumes a: "awaits st n k p e" and s: "awaitingBinaryReply st = Some b"
  shows "awaits ((call_resolve b d (dbg t st))\<lparr>awaitingBinaryReply := None\<rparr>) n k p e"
    (is "awaits ?st' n k p e")
proof -
  from a have a': "awaits (dbg t st) n k p e" by simp
  from a have w: "consistent st" and kk: "k < length (timers st)" by (simp_all add: awaits_def)
  from a s have bne: "b \<noteq> \<lparr>a_timer = k, a_promise = p\<rparr>" by (auto simp: awaits_def)
  note bt = other_holder [OF a in_holders_slot [OF s] bne]
  show ?thesis
  proof (rule awaits_keep [OF a])
    show "consistent ?st'" using w s by (rule consistent_on_binary)
    from kk bt
    show "k < length (timers ?st') \<and> t_handler (timers ?st' ! k) = t_handler (timers st ! k) \<and>
        t_args (timers ?st' ! k) = t_args (timers st ! k) \<and>
        (t_status (timers ?st' ! k) = Cleared \<longrightarrow> t_status (timers st ! k) = Cleared)"
      by (simp add: clearTimeout_status)
    show "awaitingBinaryReply ?st' \<noteq> Some \<lparr>a_timer = k, a_promise = p\<rparr>" by simp
  qed simp
qed

lemma onMessage_destroyed: "destroyed st \<Longrightarrow> onMessage data st = (Inr (), st)"
  by (simp add: onMessage_def)

lemma awaits_onMessage:
  assumes a: "awaits st n k p e" and o: "\<not> answers n (Message data) \<or> destroyed st"
  shows "awaits (snd (onMessage data st)) n k p e"
proof (cases "destroyed st")
  case True
  with a show ?thesis by (simp add: onMessage_destroyed)
next
  case False
  with o have na: "\<not> answers n (Message data)" by simp
  show ?thesis
  proof (cases data)
    case (Binary_data d)
    with a False awaits_on_binary [OF a] show ?thesis
      by (simp add: onMessage_def Let_def split: option.splits)
  next
    case (Text_data parsed)
    show ?thesis
    proof (cases parsed)
      case None
      with Text_data a False show ?thesis by (simp add: onMessage_def)
    next
      case (Some v)
      show ?thesis
      proof (cases "destructure v")
        case (Inl er)
        with Text_data Some a False show ?thesis by (simp add: onMessage_def)
      next
        case (Inr x)
        obtain cmd pl ident where x: "x = (cmd, pl, ident)" by (cases x)
        from Inr x have f: "cmd = field ''cmd'' v" "ident = field ''id'' v"
          by (auto simp: destructure_def split: if_splits)
        have a': "awaits (dbg ''incoming'' st) n k p e" using a by simp
        show ?thesis
        proof (cases cmd)
          case None
          with Text_data Some Inr x a False show ?thesis by (simp add: onMessage_def)
        next
          case (Some c)
          note c = Some
          show ?thesis
          proof (cases "is_reply_tag c")
            case True
            with na Text_data \<open>parsed = Some v\<close> c f have "awaiting_key ident \<noteq> Some n"
              by (simp add: answers_def)
            from awaits_on_reply [OF a' this, of c pl] Text_data \<open>parsed = Some v\<close> Inr x c True False
            show ?thesis by (simp add: onMessage_def)
          next
            case nt: False
            from awaits_on_command [OF a', of c pl ident] Text_data \<open>parsed = Some v\<close> Inr x c nt False
            show ?thesis by (simp add: onMessage_def)
          qed
        qed
      qed
    qed
  qed
qed

lemma awaits_step:
  assumes a: "awaits st n k p e" and o: "\<not> answers n x \<or> destroyed st"
  shows "awaits (step x st) n k p e"
proof (cases x)
  case (Send cmd payload ms)
  with awaits_send [OF a] show ?thesis by (simp add: step_def)
next
  case (ChangeWebSocket t)
  with awaits_changeWebSocket [OF a] show ?thesis by (simp add: step_def)
next
  case Destroy
  with awaits_destroy [OF a] show ?thesis by (simp add: step_def)
next
  case (Message data)
  with awaits_onMessage [OF a, of data] o show ?thesis by (simp add: step_def)
next
  case (Reply i arg er)
  with awaits_replyFunc [OF a] show ?thesis by (simp add: step_def)
next
  case (Fire j)
  with awaits_fire_any [OF a] show ?thesis by (simp add: step_def)
next
  case WsOpen
  with awaits_emit [OF a] show ?thesis by (simp add: step_def)
next
  case (WsError ev)
  with awaits_emit [OF a] show ?thesis by (simp add: step_def)
next
  case (WsClose ev)
  with awaits_emit [OF a] show ?thesis by (simp add: step_def)
next
  case (Subscribe name once j)
  with awaits_subscribe [OF a] show ?thesis by (simp add: step_def)
next
  case Unsubscribe_all
  have "view (step x st) = view st"
    using Unsubscribe_all by (simp add: step_def removeAllListeners_def)
  with a show ?thesis by (rule awaits_view)
next
  case (ReadyState m)
  have "view (step x st) = view st"
    using ReadyState by (simp add: step_def split: option.splits)
  with a show ?thesis by (rule awaits_view)
qed


lemma destroyed_step: "destroyed st \<Longrightarrow> destroyed (step x st)"
  by (cases x)
    (simp_all add: step_def send_not_usable changeWebSocket_def destroy_reentrant
      onMessage_destroyed reply_not_usable replyFunc_def destroyed_emit destroyed_subscribe
      removeAllListeners_def split: reply_arg.splits awaited.splits option.splits)

lemma destroyed_run: "destroyed st \<Longrightarrow> destroyed (run ops st)"
  by (induction ops arbitrary: st) (simp_all add: run_def destroyed_step)

lemma run_append: "run (xs @ ys) st = run ys (run xs st)"
  by (simp add: run_def)

lemma run_Cons: "run (x # xs) st = run xs (step x st)"
  by (simp add: run_def)

lemma awaits_run:
  "awaits st n k p e \<Longrightarrow> (\<forall>x \<in> set ops. \<not> answers n x) \<or> destroyed st \<Longrightarrow>
     awaits (run ops st) n k p e"
proof (induction ops arbitrary: st)
  case Nil
  then show ?case by (simp add: run_def)
next
  case (Cons x xs)
  from Cons.prems have 1: "awaits (step x st) n k p e"
    by (intro awaits_step) auto
  from Cons.prems have 2: "(\<forall>y \<in> set xs. \<not> answers n y) \<or> destroyed (step x st)"
    by (auto simp: destroyed_step)
  from Cons.IH [OF 1 2] show ?case by (simp add: run_Cons)
qed

text \<open>A settled promise stays as it is.\<close>

lemma promises_step:
  "promises (step x st) = promises st \<or> promises (step x st) = promises st @ [Pending] \<or>
   (\<exists>p r. promises (step x st) = promises (settle p r st))"
proof (cases x)
  case (Send cmd payload ms)
  with send_view [of cmd payload ms st] show ?thesis
    by (auto simp: step_def view_def)
next
  case (ChangeWebSocket t)
  then show ?thesis by (simp add: step_def)
next
  case (Message data)
  have r: "promises (snd (on_reply c pl i s)) = promises s \<or>
      (\<exists>p r. promises (snd (on_reply c pl i s)) = promises (settle p r s))" for c pl i s
    by (auto simp: on_reply_def Let_def split: option.splits)
  have c: "promises (snd (on_command c pl i s)) = promises s" for c pl i s
  proof -
    obtain r s1 where e: "emit c [ReplyFunc (val i), val pl] s = (r, s1)"
      by (cases "emit c [ReplyFunc (val i), val pl] s")
    then have "promises s1 = promises s"
      using emit_fields(1) [of c "[ReplyFunc (val i), val pl]" s] by simp
    moreover have "promises (snd (reply a b d s1)) = promises s1" for a b d
      using view_reply [of a b d s1] by (simp add: view_def)
    ultimately show ?thesis using e by (cases r) (auto simp: on_command_def)
  qed
  have s: "promises (settle p r (dbg t st)) = promises (settle p r st)" for p r t
    by (simp add: settle_def)
  show ?thesis
  proof (cases data)
    case (Binary_data d)
    with Message show ?thesis
      by (auto simp: step_def onMessage_def Let_def s split: option.splits)
  next
    case (Text_data parsed)
    with Message r [of _ _ _ "dbg ''incoming'' st"] c [of _ _ _ "dbg ''incoming'' st"]
    show ?thesis
      by (auto simp: step_def onMessage_def Let_def s split: option.splits sum.splits)
  qed
next
  case (Reply i arg er)
  then show ?thesis
    using view_replyFunc [of i arg er st] by (simp add: step_def view_def)
next
  case (Fire k)
  have "promises (st\<lparr>timers := t\<rparr>) = promises st" for t by simp
  then have "promises (settle p r (st\<lparr>timers := t\<rparr>)) = promises (settle p r st)" for p r t
    by (simp add: settle_def)
  with Fire show ?thesis
    by (auto simp: step_def fire_timer_def Let_def split: timer_handler.splits)
qed (simp_all add: step_def removeAllListeners_def split: option.splits)

lemma settled_step:
  assumes "p < length (promises st)" and "promises st ! p \<noteq> Pending"
  shows "p < length (promises (step x st)) \<and> promises (step x st) ! p = promises st ! p"
  using promises_step [of x st] assms
  by (auto simp: settle_promises nth_append)

lemma settled_run:
  "p < length (promises st) \<Longrightarrow> promises st ! p \<noteq> Pending \<Longrightarrow>
     p < length (promises (run ops st)) \<and> promises (run ops st) ! p = promises st ! p"
proof (induction ops arbitrary: st)
  case Nil
  then show ?case by (simp add: run_def)
next
  case (Cons x xs)
  from settled_step [OF Cons.prems, of x]
  have s: "p < length (promises (step x st))" "promises (step x st) ! p = promises st ! p"
    by simp_all
  with Cons.prems(2) have "promises (step x st) ! p \<noteq> Pending" by simp
  from Cons.IH [OF s(1) this] s(2) show ?case by (simp add: run_Cons)
qed


lemma send_Some:
  assumes "fst (send cmd payload ms st) = Inr (Some p)"
  shows "\<exists>c. cmd = Json (JStr c) \<and> p = length (promises st) \<and>
     timers (snd (send cmd payload ms st)) = timers st @
       [\<lparr>t_status = Armed, t_handler = Reject_promise p,
         t_delay = Millis (case ms of None \<Rightarrow> 2000 | Some n \<Rightarrow> n),
         t_args = [timeout_error c (case ms of None \<Rightarrow> 2000 | Some n \<Rightarrow> n)]\<rparr>] \<and>
     promises (snd (send cmd payload ms st)) = promises st @ [Pending] \<and>
     awaitingReply (snd (send cmd payload ms st)) =
       AList.update (msgId st) \<lparr>a_timer = length (timers st), a_promise = p\<rparr> (awaitingReply st) \<and>
     awaitingBinaryReply (snd (send cmd payload ms st)) = awaitingBinaryReply st"
  using assms
  by (auto simp: send_def Let_def new_promise_def setTimeout_def add_timer_def dbg_def
      ws_send_def split: jsval.splits json.splits if_splits)

lemma awaits_after_send:
  assumes c: "consistent st" and s: "fst (send cmd payload ms st) = Inr (Some p)"
  shows "\<exists>c. cmd = Json (JStr c) \<and> p = length (promises st) \<and>
     awaits (snd (send cmd payload ms st)) (msgId st) (length (timers st)) p
       (timeout_error c (case ms of None \<Rightarrow> 2000 | Some n \<Rightarrow> n))"
proof -
  let ?st1 = "snd (send cmd payload ms st)"
  let ?m = "case ms of None \<Rightarrow> 2000 | Some n \<Rightarrow> n"
  let ?a = "\<lparr>a_timer = length (timers st), a_promise = p\<rparr>"
  from send_Some [OF s] obtain c' where cm: "cmd = Json (JStr c')"
    and p: "p = length (promises st)"
    and t: "timers ?st1 = timers st @ [\<lparr>t_status = Armed, t_handler = Reject_promise p,
         t_delay = Millis ?m, t_args = [timeout_error c' ?m]\<rparr>]"
    and m: "awaitingReply ?st1 = AList.update (msgId st) ?a (awaitingReply st)"
    and sl: "awaitingBinaryReply ?st1 = awaitingBinaryReply st"
    by blast
  have old: "b \<noteq> ?a" if "b \<in> set (holders st)" for b
    using consistent_holder [OF c that] by (auto simp: holder_ok_def)
  have 1: "awaitingBinaryReply ?st1 \<noteq> Some ?a"
    using old [of ?a] by (auto simp: sl holders_def)
  have 2: "key = msgId st" if "map_of (awaitingReply ?st1) key = Some ?a" for key
  proof (rule ccontr)
    assume "key \<noteq> msgId st"
    with that have "map_of (awaitingReply st) key = Some ?a"
      by (simp add: m update_conv')
    from old [OF in_holders_map [OF this]] show False by simp
  qed
  have "awaits ?st1 (msgId st) (length (timers st)) p (timeout_error c' ?m)"
    unfolding awaits_def using consistent_send_op [OF c, of cmd payload ms] 1 2
    by (simp add: t)
  with cm p show ?thesis by blast
qed

lemma consistent_reachable: "consistent (run ops (new_endpoint h d b doc))"
  by (rule consistent_run) (rule consistent_new)

lemma timeout_error_carries:
  "\<exists>x y z. timeout_error c m =
     ErrorObj ''SimpleWebSocketAPI_Error'' (x @ c @ y @ show_nat m @ z) ''REPLY_TIMEOUT''"
proof -
  have "timeout_error c m = ErrorObj ''SimpleWebSocketAPI_Error''
      ((''A reply for '' @ [CHR 0x22]) @ c @
       ([CHR 0x22] @ '' was not received within the replyTimeout period of '') @
       show_nat m @ '' ms.'') ''REPLY_TIMEOUT''"
    by (simp add: timeout_error_def api_error_def)
  then show ?thesis by blast
qed


lemma awaits_after_destroy:
  assumes c: "consistent st" and nd: "\<not> destroyed st" and m: "(n, a) \<in> set (awaitingReply st)"
  shows "\<exists>cm ms. t_args (timers st ! a_timer a) = [timeout_error cm ms] \<and>
     awaits (destroy st) n (a_timer a) (a_promise a) (timeout_error cm ms)"
proof -
  from m have h: "a \<in> set (holders st)" by (force simp: holders_def)
  from consistent_holder [OF c h] have k: "a_timer a < length (timers st)"
    and hd: "t_handler (timers st ! a_timer a) = Reject_promise (a_promise a)"
    and nc: "t_status (timers st ! a_timer a) \<noteq> Cleared"
    by (simp_all add: holder_ok_def)
  from consistent_timer [OF c k] hd obtain cm ms
    where ar: "t_args (timers st ! a_timer a) = [timeout_error cm ms]"
    by (auto simp: timer_ok_def)
  have aa: "\<lparr>a_timer = a_timer a, a_promise = a_promise a\<rparr> = a" by simp
  have sl: "awaitingBinaryReply st \<noteq> Some a"
  proof
    assume s: "awaitingBinaryReply st = Some a"
    from m have "a_timer a \<in> set (map a_timer (map snd (awaitingReply st)))" by force
    with consistent_parts(2) [OF c s] show False by simp
  qed
  have "awaits (destroy st) n (a_timer a) (a_promise a) (timeout_error cm ms)"
    unfolding awaits_def aa
    using consistent_destroy [OF c] k hd ar nc sl nd
    by (simp add: awaitingReply_destroy)
  with ar show ?thesis by blast
qed


lemma holder_fires:
  assumes c: "consistent st" and h: "a \<in> set (holders st)"
  shows "a_promise a < length (promises st) \<and>
     (\<exists>cm ms. promises (fire_timer (a_timer a) st) ! a_promise a = Rejected (timeout_error cm ms))"
proof -
  from consistent_holder [OF c h] have k: "a_timer a < length (timers st)"
    and hd: "t_handler (timers st ! a_timer a) = Reject_promise (a_promise a)"
    and nc: "t_status (timers st ! a_timer a) \<noteq> Cleared"
    by (simp_all add: holder_ok_def)
  from consistent_timer [OF c k] hd obtain cm ms
    where ar: "t_args (timers st ! a_timer a) = [timeout_error cm ms]"
    by (auto simp: timer_ok_def)
  from consistent_timer [OF c k] hd nc k ar
  have "a_promise a < length (promises st) \<and>
      promises (fire_timer (a_timer a) st) ! a_promise a = Rejected (timeout_error cm ms)"
    by (cases "t_status (timers st ! a_timer a)") (auto simp: timer_ok_def fire_timer_promises)
  then show ?thesis by blast
qed


section \<open>A destroyed endpoint holds no request\<close>

lemma tidy_emit: "tidy st \<Longrightarrow> tidy (snd (emit n a st))"
  unfolding emit_def
  by (rule inv_emit_with) (auto simp: tidy_def awaitingReply_destroy)

lemma tidy_destroy: "tidy st \<Longrightarrow> tidy (destroy st)"
  by (simp add: tidy_def awaitingReply_destroy)

lemma destroyed_send [simp]: "destroyed (snd (send cmd payload ms st)) = destroyed st"
  by (auto simp: send_def Let_def new_promise_def setTimeout_def add_timer_def dbg_def
      ws_send_def split: jsval.splits json.splits)

lemma destroyed_reply [simp]: "destroyed (snd (reply i p e st)) = destroyed st"
  by (simp add: reply_def Let_def ws_send_def)

lemma destroyed_on_reply [simp]: "destroyed (snd (on_reply c p i st)) = destroyed st"
  by (simp add: on_reply_def Let_def split: option.splits)

lemma tidy_on_command: "tidy st \<Longrightarrow> tidy (snd (on_command c p i st))"
proof -
  assume t: "tidy st"
  obtain r st1 where e: "emit c [ReplyFunc (val i), val p] st = (r, st1)"
    by (cases "emit c [ReplyFunc (val i), val p] st")
  with tidy_emit [OF t, of c "[ReplyFunc (val i), val p]"] have t1: "tidy st1" by simp
  have "tidy (snd (reply a b d st1))" for a b d
    using t1 view_reply [of a b d st1] by (simp add: tidy_def view_def)
  with e t1 show ?thesis by (cases r) (auto simp: on_command_def)
qed

lemma tidy_upd [simp]:
  "tidy (s\<lparr>listeners := x\<rparr>) = tidy s" "tidy (s\<lparr>wrappers := w\<rparr>) = tidy s"
  "tidy (s\<lparr>ws := z\<rparr>) = tidy s" "tidy (s\<lparr>timers := t\<rparr>) = tidy s"
  by (simp_all add: tidy_def)

lemma tidy_subscribe:
  "tidy st \<Longrightarrow> tidy (on_event n f st)" "tidy st \<Longrightarrow> tidy (once_event n f st)"
  by (rule inv_on_event [of tidy]; simp add: tidy_emit)
    (rule inv_once_event [of tidy]; simp add: tidy_emit)

lemma tidy_changeWebSocket: "tidy st \<Longrightarrow> tidy (snd (changeWebSocket t st))"
  by (rule inv_changeWebSocket [of tidy]) (simp_all add: tidy_emit)

lemma tidy_step: "tidy st \<Longrightarrow> tidy (step x st)"
proof -
  assume t: "tidy st"
  show ?thesis
  proof (cases x)
    case (Send cmd payload ms)
    with t show ?thesis
      by (cases "destroyed st") (simp_all add: step_def tidy_def send_not_usable)
  next
    case (ChangeWebSocket w)
    with tidy_changeWebSocket [OF t] show ?thesis by (simp add: step_def)
  next
    case Destroy
    with tidy_destroy [OF t] show ?thesis by (simp add: step_def)
  next
    case (Message data)
    show ?thesis
    proof (cases "destroyed st")
      case True
      with Message t show ?thesis by (simp add: step_def onMessage_destroyed)
    next
      case False
      have c: "tidy (snd (on_command c p i (dbg ''incoming'' st)))" for c p i
        using False by (intro tidy_on_command) (simp add: tidy_def)
      show ?thesis
      proof (cases data)
        case (Binary_data d)
        with Message False show ?thesis
          by (simp add: step_def tidy_def onMessage_def Let_def split: option.splits)
      next
        case (Text_data parsed)
        with Message False c show ?thesis
          by (auto simp: step_def onMessage_def Let_def tidy_def
              split: option.splits sum.splits)
      qed
    qed
  next
    case (Reply i arg e)
    have "destroyed (snd (replyFunc i arg e st)) = destroyed st"
      by (auto simp: replyFunc_def split: reply_arg.splits awaited.splits prod.splits sum.splits)
        (metis destroyed_reply snd_conv)+
    moreover have "awaitingReply (snd (replyFunc i arg e st)) = awaitingReply st"
      using view_replyFunc [of i arg e st] by (simp add: view_def)
    ultimately show ?thesis using Reply t by (simp add: step_def tidy_def)
  next
    case (Fire k)
    with t show ?thesis by (simp add: step_def tidy_def)
  next
    case WsOpen
    with tidy_emit [OF t] show ?thesis by (simp add: step_def)
  next
    case (WsError ev)
    with tidy_emit [OF t] show ?thesis by (simp add: step_def)
  next
    case (WsClose ev)
    with tidy_emit [OF t] show ?thesis by (simp add: step_def)
  next
    case (Subscribe name once k)
    with tidy_subscribe [OF t] show ?thesis by (simp add: step_def)
  next
    case Unsubscribe_all
    with t show ?thesis by (simp add: step_def removeAllListeners_def)
  next
    case (ReadyState m)
    with t show ?thesis by (simp add: step_def tidy_def split: option.splits)
  qed
qed

lemma tidy_run: "tidy st \<Longrightarrow> tidy (run ops st)"
  by (induction ops arbitrary: st) (simp_all add: run_def tidy_step)

lemma tidy_reachable: "tidy (run ops (new_endpoint h d b doc))"
  by (rule tidy_run) (simp add: tidy_def new_endpoint_def)


section \<open>How the pending-request map changes\<close>

lemma reply_map [simp]: "awaitingReply (snd (reply i p e st)) = awaitingReply st"
  using view_reply [of i p e st] by (simp add: view_def)

lemma on_command_alive:
  "awaitingReply (snd (on_command c p i st)) = awaitingReply st \<or>
   (destroyed (snd (on_command c p i st)) \<and> awaitingReply (snd (on_command c p i st)) = [])"
proof -
  obtain r s1 where e: "emit c [ReplyFunc (val i), val p] st = (r, s1)"
    by (cases "emit c [ReplyFunc (val i), val p] st")
  with emit_alive [of c "[ReplyFunc (val i), val p]" st]
  have "awaitingReply s1 = awaitingReply st \<or> (destroyed s1 \<and> awaitingReply s1 = [])" by simp
  then show ?thesis using e by (cases r) (auto simp: on_command_def)
qed

lemma awaitingReply_step:
  "awaitingReply (step x st) = awaitingReply st \<or>
   (destroyed (step x st) \<and> awaitingReply (step x st) = []) \<or>
   (\<exists>key. answers key x \<and> awaitingReply (step x st) = AList.delete key (awaitingReply st)) \<or>
   (\<exists>cmd pl ms. x = Send cmd pl ms \<and> msgId (step x st) = Suc (msgId st) \<and>
      awaitingReply (step x st) =
        AList.update (msgId st) \<lparr>a_timer = length (timers st), a_promise = length (promises st)\<rparr>
          (awaitingReply st))"
proof (cases x)
  case (Send cmd payload ms)
  then show ?thesis
    by (auto simp: step_def send_def Let_def new_promise_def setTimeout_def add_timer_def dbg_def
      ws_send_def split: jsval.splits json.splits)
next
  case (ChangeWebSocket t)
  with changeWebSocket_alive [of t st] show ?thesis by (auto simp: step_def)
next
  case Destroy
  then show ?thesis by (simp add: step_def awaitingReply_destroy)
next
  case (Message data)
  show ?thesis
  proof (cases "destroyed st")
    case True
    with Message show ?thesis by (simp add: step_def onMessage_destroyed)
  next
    case nd: False
    show ?thesis
    proof (cases data)
      case (Binary_data d)
      with Message nd show ?thesis
        by (simp add: step_def onMessage_def Let_def split: option.splits)
    next
      case (Text_data parsed)
      show ?thesis
      proof (cases parsed)
        case None
        with Message Text_data nd show ?thesis by (simp add: step_def onMessage_def)
      next
        case (Some v)
        show ?thesis
        proof (cases "destructure v")
          case (Inl er)
          with Message Text_data Some nd show ?thesis by (simp add: step_def onMessage_def)
        next
          case (Inr y)
          obtain cmd pl ident where y: "y = (cmd, pl, ident)" by (cases y)
          from Inr y have f: "cmd = field ''cmd'' v" "ident = field ''id'' v"
            by (auto simp: destructure_def split: if_splits)
          show ?thesis
          proof (cases cmd)
            case None
            with Message Text_data Some Inr y nd show ?thesis
              by (simp add: step_def onMessage_def)
          next
            case c: (Some c)
            show ?thesis
            proof (cases "is_reply_tag c")
              case True
              have s: "step x st = snd (on_reply c pl ident (dbg ''incoming'' st))"
                using Message Text_data Some Inr y nd c True by (simp add: step_def onMessage_def)
              show ?thesis
              proof (cases "awaiting_get (awaitingReply st) ident")
                case None
                then show ?thesis by (simp add: s on_reply_def)
              next
                case b: (Some b)
                from awaiting_get_key [OF b] obtain key
                  where ky: "awaiting_key ident = Some key"
                    and d: "awaiting_delete ident (awaitingReply st) = AList.delete key (awaitingReply st)"
                  by blast
                have "answers key x"
                  using Message Text_data Some c True f ky by (simp add: answers_def)
                moreover have "awaitingReply (step x st) = AList.delete key (awaitingReply st)"
                  using b d by (simp add: s on_reply_def Let_def)
                ultimately show ?thesis by blast
              qed
            next
              case False
              have s: "step x st = snd (on_command c pl ident (dbg ''incoming'' st))"
                using Message Text_data Some Inr y nd c False by (simp add: step_def onMessage_def)
              from on_command_alive [of c pl ident "dbg ''incoming'' st"] show ?thesis
                unfolding s by auto
            qed
          qed
        qed
      qed
    qed
  qed
next
  case (Reply i arg er)
  then show ?thesis using view_replyFunc [of i arg er st] by (simp add: step_def view_def)
next
  case (Fire j)
  then show ?thesis by (simp add: step_def)
next
  case WsOpen
  with emit_alive [of "JStr ''open''" "[]" st] show ?thesis by (auto simp: step_def)
next
  case (WsError ev)
  with emit_alive [of "JStr ''error''" "[ev]" st] show ?thesis by (auto simp: step_def)
next
  case (WsClose ev)
  with emit_alive [of "JStr ''close''" "[ev]" st] show ?thesis by (auto simp: step_def)
next
  case (Subscribe name once j)
  with subscribe_alive [of name "User_listener j" st] show ?thesis by (auto simp: step_def)
next
  case Unsubscribe_all
  then show ?thesis by (simp add: step_def removeAllListeners_def)
next
  case (ReadyState m)
  then show ?thesis by (simp add: step_def split: option.splits)
qed

lemma keys_below_step: "keys_below st \<Longrightarrow> keys_below (step x st)"
proof -
  assume k: "keys_below st"
  from awaitingReply_step [of x st] show ?thesis
  proof (elim disjE exE conjE)
    assume "awaitingReply (step x st) = awaitingReply st"
    with k msgId_step [of st x] show ?thesis by (fastforce simp: keys_below_def)
  next
    assume "awaitingReply (step x st) = []"
    then show ?thesis by (simp add: keys_below_def)
  next
    fix key assume "awaitingReply (step x st) = AList.delete key (awaitingReply st)"
    with k msgId_step [of st x] show ?thesis
      by (fastforce simp: keys_below_def AList.delete_eq)
  next
    fix cmd pl ms
    assume "msgId (step x st) = Suc (msgId st)"
      and "awaitingReply (step x st) =
        AList.update (msgId st) \<lparr>a_timer = length (timers st), a_promise = length (promises st)\<rparr>
          (awaitingReply st)"
    with k show ?thesis
      by (auto simp: keys_below_def dom_update [unfolded dom_map_of_conv_image_fst] less_Suc_eq)
  qed
qed

lemma keys_below_run: "keys_below st \<Longrightarrow> keys_below (run ops st)"
  by (induction ops arbitrary: st) (simp_all add: run_def keys_below_step)

lemma keys_below_reachable: "keys_below (run ops (new_endpoint h d b doc))"
  by (rule keys_below_run) (simp add: keys_below_def new_endpoint_def)

text \<open>An entry stays in the map until a reply, error reply or marker with its id
  arrives or the endpoint is destroyed.\<close>

lemma entry_step:
  assumes t: "tidy st" and kb: "keys_below st" and m: "map_of (awaitingReply st) n = Some a"
  shows "map_of (awaitingReply (step x st)) n =
     (if answers n x \<or> destroyed (step x st) then None else Some a)"
proof -
  from t m have nd: "\<not> destroyed st" by (auto simp: tidy_def)
  have ts: "tidy (step x st)" using t by (rule tidy_step)
  show ?thesis
  proof (cases "answers n x")
    case True
    then obtain v c where x: "x = Message (Text_data (Some v))" and c: "field ''cmd'' v = Some c"
      and r: "is_reply_tag c" and ky: "awaiting_key (field ''id'' v) = Some n"
      by (auto simp: answers_def split: op.splits inbound.splits option.splits)
    from ky m have g: "awaiting_get (awaitingReply st) (field ''id'' v) = Some a"
      and dl: "awaiting_delete (field ''id'' v) (awaitingReply st) = AList.delete n (awaitingReply st)"
      by (simp_all add: awaiting_get_def awaiting_delete_def)
    have "step x st = snd (on_reply c (field ''payload'' v) (field ''id'' v) (dbg ''incoming'' st))"
      using x nd c r by (simp add: step_def onMessage_def destructure_object [OF c])
    then have "map_of (awaitingReply (step x st)) n = None"
      by (simp add: on_reply_def g dl Let_def delete_conv')
    with True show ?thesis by simp
  next
    case na: False
    show ?thesis
    proof (cases "destroyed (step x st)")
      case True
      with ts show ?thesis by (simp add: tidy_def)
    next
      case False
      from awaitingReply_step [of x st] have "map_of (awaitingReply (step x st)) n = Some a"
      proof (elim disjE exE conjE)
        assume "awaitingReply (step x st) = awaitingReply st"
        with m show ?thesis by simp
      next
        assume "destroyed (step x st)"
        with False show ?thesis by simp
      next
        fix key assume "answers key x"
          and "awaitingReply (step x st) = AList.delete key (awaitingReply st)"
        with na m show ?thesis by (auto simp: delete_conv')
      next
        fix cmd pl ms
        assume u: "awaitingReply (step x st) =
          AList.update (msgId st) \<lparr>a_timer = length (timers st), a_promise = length (promises st)\<rparr>
            (awaitingReply st)"
        from map_of_SomeD [OF m] have "n \<in> fst ` set (awaitingReply st)" by force
        with kb have "n \<noteq> msgId st" by (auto simp: keys_below_def)
        with m show ?thesis by (simp add: u update_conv')
      qed
      with na False show ?thesis by simp
    qed
  qed
qed

section \<open>Timers keep what they were armed with\<close>

lemma timer_delay_kept [simp]:
  "t_delay (timers (clearTimeout k st) ! j) = t_delay (timers st ! j)"
  "t_delay (timers (fire_timer k st) ! j) = t_delay (timers st ! j)"
  by (auto simp: clearTimeout_def fire_timer_def Let_def nth_list_update
      split: timer_handler.splits)

lemma timers_step_shape:
  "timers (step x st) = timers st \<or> (\<exists>t. timers (step x st) = timers st @ [t]) \<or>
   (\<exists>j. timers (step x st) = timers (clearTimeout j st)) \<or>
   (\<exists>j. timers (step x st) = timers (fire_timer j st))"
proof (cases x)
  case (Send cmd payload ms)
  with send_view [of cmd payload ms st] show ?thesis
    by (auto simp: step_def view_def)
next
  case (ChangeWebSocket t)
  with changeWebSocket_timers [of t st] show ?thesis by (auto simp: step_def)
next
  case (Message data)
  have r: "timers (snd (on_reply c pl i s)) = timers s \<or>
      (\<exists>j. timers (snd (on_reply c pl i s)) = timers (clearTimeout j s))" for c pl i s
    by (auto simp: on_reply_def Let_def split: option.splits)
  have c: "timers (snd (on_command c pl i s)) = timers s" for c pl i s
  proof -
    obtain r s1 where e: "emit c [ReplyFunc (val i), val pl] s = (r, s1)"
      by (cases "emit c [ReplyFunc (val i), val pl] s")
    then have "timers s1 = timers s"
      using emit_fields(2) [of c "[ReplyFunc (val i), val pl]" s] by simp
    moreover have "timers (snd (reply a b d s1)) = timers s1" for a b d
      using view_reply [of a b d s1] by (simp add: view_def)
    ultimately show ?thesis using e by (cases r) (auto simp: on_command_def)
  qed
  have s: "timers (clearTimeout j (dbg t st)) = timers (clearTimeout j st)" for j t
    by (auto simp: clearTimeout_def dbg_def)
  show ?thesis
  proof (cases data)
    case (Binary_data d)
    with Message show ?thesis
      by (auto simp: step_def onMessage_def Let_def s split: option.splits)
  next
    case (Text_data parsed)
    with Message r [of _ _ _ "dbg ''incoming'' st"] c [of _ _ _ "dbg ''incoming'' st"]
    show ?thesis
      by (auto simp: step_def onMessage_def Let_def s split: option.splits sum.splits)
  qed
next
  case (Reply i arg er)
  then show ?thesis
    using view_replyFunc [of i arg er st] by (simp add: step_def view_def)
next
  case (Fire k)
  then show ?thesis by (auto simp: step_def)
qed (simp_all add: step_def removeAllListeners_def split: option.splits)

lemma timers_step:
  assumes "k < length (timers st)"
  shows "k < length (timers (step x st)) \<and>
     t_handler (timers (step x st) ! k) = t_handler (timers st ! k) \<and>
     t_delay (timers (step x st) ! k) = t_delay (timers st ! k) \<and>
     t_args (timers (step x st) ! k) = t_args (timers st ! k)"
  using timers_step_shape [of x st] assms by (auto simp: nth_append)

lemma timers_run:
  "k < length (timers st) \<Longrightarrow>
     k < length (timers (run ops st)) \<and>
     t_handler (timers (run ops st) ! k) = t_handler (timers st ! k) \<and>
     t_delay (timers (run ops st) ! k) = t_delay (timers st ! k) \<and>
     t_args (timers (run ops st) ! k) = t_args (timers st ! k)"
proof (induction ops arbitrary: st)
  case Nil
  then show ?case by (simp add: run_def)
next
  case (Cons x xs)
  from timers_step [OF Cons.prems, of x] Cons.IH [of "step x st"] show ?case
    by (simp add: run_Cons)
qed

section \<open>What settles a promise\<close>

lemma pending_step:
  assumes l: "p < length (promises st)" and pe: "promises st ! p = Pending"
    and np: "promises (step x st) ! p \<noteq> Pending"
  shows "(\<exists>j. x = Fire j \<and> j < length (timers st) \<and> t_handler (timers st ! j) = Reject_promise p) \<or>
     (\<exists>v b. x = Message (Text_data (Some v)) \<and>
        (field ''cmd'' v = Some (JStr ''int:reply'') \<or>
         field ''cmd'' v = Some (JStr ''int:errorReply'')) \<and>
        awaiting_get (awaitingReply st) (field ''id'' v) = Some b \<and> a_promise b = p) \<or>
     (\<exists>d b. x = Message (Binary_data d) \<and> awaitingBinaryReply st = Some b \<and> a_promise b = p)"
proof (cases x)
  case (Send cmd payload ms)
  with send_view [of cmd payload ms st] l pe np show ?thesis
    by (auto simp: step_def view_def nth_append)
next
  case (ChangeWebSocket t)
  with pe np show ?thesis by (simp add: step_def)
next
  case Destroy
  with pe np show ?thesis by (simp add: step_def)
next
  case (Message data)
  show ?thesis
  proof (cases "destroyed st")
    case True
    with Message pe np show ?thesis by (simp add: step_def onMessage_destroyed)
  next
    case nd: False
    have sd: "promises (settle q r (dbg t st)) = promises (settle q r st)" for q r t
      by (simp add: settle_def)
    show ?thesis
    proof (cases data)
      case (Binary_data d)
      with Message nd pe np show ?thesis
        by (auto simp: step_def onMessage_def Let_def call_resolve_def sd settle_promises
            split: option.splits if_splits)
    next
      case (Text_data parsed)
      show ?thesis
      proof (cases parsed)
        case None
        with Message Text_data nd pe np show ?thesis by (simp add: step_def onMessage_def)
      next
        case (Some v)
        show ?thesis
        proof (cases "destructure v")
          case (Inl er)
          with Message Text_data Some nd pe np show ?thesis by (simp add: step_def onMessage_def)
        next
          case (Inr y)
          obtain cmd pl ident where y: "y = (cmd, pl, ident)" by (cases y)
          from Inr y have f: "cmd = field ''cmd'' v" "ident = field ''id'' v"
            by (auto simp: destructure_def split: if_splits)
          show ?thesis
          proof (cases cmd)
            case None
            with Message Text_data Some Inr y nd pe np show ?thesis
              by (simp add: step_def onMessage_def)
          next
            case c: (Some c)
            show ?thesis
            proof (cases "is_reply_tag c")
              case True
              have s: "step x st = snd (on_reply c pl ident (dbg ''incoming'' st))"
                using Message Text_data Some Inr y nd c True by (simp add: step_def onMessage_def)
              show ?thesis
              proof (cases "awaiting_get (awaitingReply st) ident")
                case None
                with pe np show ?thesis by (simp add: s on_reply_def)
              next
                case b: (Some b)
                from np pe b have "(c = JStr ''int:reply'' \<or> c = JStr ''int:errorReply'') \<and>
                    a_promise b = p"
                  by (auto simp: s on_reply_def Let_def call_resolve_def call_reject_def sd
                      settle_promises split: if_splits)
                with b c f Message Text_data Some show ?thesis by auto
              qed
            next
              case False
              have s: "step x st = snd (on_command c pl ident (dbg ''incoming'' st))"
                using Message Text_data Some Inr y nd c False by (simp add: step_def onMessage_def)
              obtain r s1 where e: "emit c [ReplyFunc (val ident), val pl] (dbg ''incoming'' st) = (r, s1)"
                by (cases "emit c [ReplyFunc (val ident), val pl] (dbg ''incoming'' st)")
              then have "promises s1 = promises st"
                using emit_fields(1) [of c "[ReplyFunc (val ident), val pl]" "dbg ''incoming'' st"]
                by simp
              moreover have "promises (snd (reply a b d s1)) = promises s1" for a b d
                using view_reply [of a b d s1] by (simp add: view_def)
              ultimately have "promises (step x st) = promises st"
                unfolding s using e by (cases r) (auto simp: on_command_def)
              with pe np show ?thesis by simp
            qed
          qed
        qed
      qed
    qed
  qed
next
  case (Reply i arg er)
  with pe np show ?thesis
    using view_replyFunc [of i arg er st] by (simp add: step_def view_def)
next
  case (Fire k)
  with pe np show ?thesis
    by (auto simp: step_def fire_timer_promises split: if_splits)
next
  case WsOpen
  with pe np show ?thesis by (simp add: step_def)
next
  case (WsError ev)
  with pe np show ?thesis by (simp add: step_def)
next
  case (WsClose ev)
  with pe np show ?thesis by (simp add: step_def)
next
  case (Subscribe name once j)
  with pe np show ?thesis by (auto simp: step_def split: if_splits)
next
  case Unsubscribe_all
  with pe np show ?thesis by (simp add: step_def removeAllListeners_def)
next
  case (ReadyState m)
  with pe np show ?thesis by (simp add: step_def split: option.splits)
qed

text \<open>The closures of a request are stored under its id and nowhere else in the map.\<close>

lemma own_key_step:
  assumes k: "k < length (timers st)"
    and o: "\<forall>key. map_of (awaitingReply st) key = Some \<lparr>a_timer = k, a_promise = p\<rparr> \<longrightarrow> key = n"
  shows "\<forall>key. map_of (awaitingReply (step x st)) key = Some \<lparr>a_timer = k, a_promise = p\<rparr> \<longrightarrow> key = n"
  using awaitingReply_step [of x st] k o
  by (elim disjE exE conjE) (auto simp: delete_conv' update_conv' split: if_splits)

lemma own_key_run:
  "k < length (timers st) \<Longrightarrow>
   \<forall>key. map_of (awaitingReply st) key = Some \<lparr>a_timer = k, a_promise = p\<rparr> \<longrightarrow> key = n \<Longrightarrow>
   \<forall>key. map_of (awaitingReply (run ops st)) key = Some \<lparr>a_timer = k, a_promise = p\<rparr> \<longrightarrow> key = n"
proof (induction ops arbitrary: st)
  case Nil
  then show ?case by (simp add: run_def)
next
  case (Cons x xs)
  from timers_step [OF Cons.prems(1), of x] own_key_step [OF Cons.prems, of x]
    Cons.IH [of "step x st"]
  show ?case by (simp add: run_Cons)
qed

lemma length_promises_step: "length (promises st) \<le> length (promises (step x st))"
  using promises_step [of x st] by (auto simp: settle_promises)

lemma tracked_step: "tracked st n k p dl e \<Longrightarrow> tracked (step x st) n k p dl e"
  unfolding tracked_def
  using consistent_step [of st x] timers_step [of k st x] own_key_step [of k st p n x]
  by simp

lemma tracked_run: "tracked st n k p dl e \<Longrightarrow> tracked (run ops st) n k p dl e"
  by (induction ops arbitrary: st) (simp_all add: run_def tracked_step)

lemma tracked_state:
  assumes "tracked st n k p dl e"
  shows "p < length (promises st) \<and>
    ((t_status (timers st ! k) = Armed \<and> promises st ! p = Pending) \<or>
     (t_status (timers st ! k) = Fired \<and> promises st ! p = Rejected e) \<or>
     (t_status (timers st ! k) = Cleared \<and> promises st ! p \<noteq> Pending))"
proof -
  from assms have k: "k < length (timers st)" and c: "consistent st"
    and h: "t_handler (timers st ! k) = Reject_promise p" and ar: "t_args (timers st ! k) = [e]"
    by (simp_all add: tracked_def)
  from consistent_timer [OF c k] h ar show ?thesis
    by (cases "t_status (timers st ! k)") (auto simp: timer_ok_def)
qed

lemma tracked_fire:
  assumes "tracked st n k p dl e"
  shows "promises (fire_timer k st) ! p =
     (if promises st ! p = Pending then Rejected e else promises st ! p)"
  using tracked_state [OF assms] assms
  by (auto simp: fire_timer_promises tracked_def)

lemma tracked_holder:
  assumes t: "tracked st n k p dl e" and b: "b \<in> set (holders st)" and p: "a_promise b = p"
  shows "b = \<lparr>a_timer = k, a_promise = p\<rparr>"
proof -
  from t have c: "consistent st" and k: "k < length (timers st)"
    and h: "t_handler (timers st ! k) = Reject_promise p"
    by (simp_all add: tracked_def)
  from consistent_holder [OF c b] p have "a_timer b < length (timers st)"
    and "t_handler (timers st ! a_timer b) = Reject_promise p"
    by (simp_all add: holder_ok_def)
  from consistent_unique [OF c this(1) k this(2) h] p show ?thesis by (cases b) simp
qed

text \<open>A pending promise is settled by the firing of its timer, by a reply or error reply
  with the id of its request, or by the binary frame that follows its marker.\<close>

lemma tracked_settled:
  assumes t: "tracked st n k p dl e" and pe: "promises st ! p = Pending"
    and np: "promises (step x st) ! p \<noteq> Pending"
  shows "x = Fire k \<or> replies n x \<or>
     (\<exists>data. x = Message (Binary_data data) \<and>
        awaitingBinaryReply st = Some \<lparr>a_timer = k, a_promise = p\<rparr>)"
proof -
  from t have c: "consistent st" and k: "k < length (timers st)"
    and h: "t_handler (timers st ! k) = Reject_promise p"
    and o: "\<And>key. map_of (awaitingReply st) key = Some \<lparr>a_timer = k, a_promise = p\<rparr> \<Longrightarrow> key = n"
    by (simp_all add: tracked_def)
  from tracked_state [OF t] have l: "p < length (promises st)" by simp
  from pending_step [OF l pe np] consider
      (by_timer) j where "x = Fire j" "j < length (timers st)"
        "t_handler (timers st ! j) = Reject_promise p"
    | (by_reply) v b where "x = Message (Text_data (Some v))"
        "field ''cmd'' v = Some (JStr ''int:reply'') \<or>
         field ''cmd'' v = Some (JStr ''int:errorReply'')"
        "awaiting_get (awaitingReply st) (field ''id'' v) = Some b" "a_promise b = p"
    | (by_binary) data b where "x = Message (Binary_data data)" "awaitingBinaryReply st = Some b"
        "a_promise b = p"
    by blast
  then show ?thesis
  proof cases
    case by_timer
    with consistent_unique [OF c by_timer(2) k by_timer(3) h] show ?thesis by simp
  next
    case by_reply
    from awaiting_get_key [OF by_reply(3)] obtain key
      where ky: "awaiting_key (field ''id'' v) = Some key"
        and mk: "map_of (awaitingReply st) key = Some b" by blast
    from tracked_holder [OF t in_holders_map [OF mk] by_reply(4)] mk have "key = n" by (simp add: o)
    with by_reply(1,2) ky show ?thesis by (simp add: replies_def)
  next
    case by_binary
    with tracked_holder [OF t in_holders_slot [OF by_binary(2)] by_binary(3)] show ?thesis by simp
  qed
qed

lemma tracked_unanswered:
  "tracked st n k p dl e \<Longrightarrow>
   promises st ! p = Pending \<or> promises st ! p = Rejected e \<Longrightarrow>
   \<forall>x \<in> set ops. \<not> replies n x \<and> (\<forall>data. x \<noteq> Message (Binary_data data)) \<Longrightarrow>
   promises (run ops st) ! p = Pending \<or> promises (run ops st) ! p = Rejected e"
proof (induction ops arbitrary: st)
  case Nil
  then show ?case by (simp add: run_def)
next
  case (Cons x xs)
  note t = Cons.prems(1)
  from tracked_state [OF t] have l: "p < length (promises st)" by simp
  have "promises (step x st) ! p = Pending \<or> promises (step x st) ! p = Rejected e"
  proof (cases "promises st ! p = Pending")
    case True
    show ?thesis
    proof (cases "promises (step x st) ! p = Pending")
      case False
      from tracked_settled [OF t True False] Cons.prems(3) have "x = Fire k" by auto
      with tracked_fire [OF t] True show ?thesis by (simp add: step_def)
    qed simp
  next
    case False
    with Cons.prems(2) settled_step [OF l False, of x] show ?thesis by simp
  qed
  from Cons.IH [OF tracked_step [OF t] this] Cons.prems(3) show ?case by (simp add: run_Cons)
qed

lemma tracked_after_send:
  assumes c: "consistent st" and s: "fst (send cmd payload ms st) = Inr (Some p)"
  shows "\<exists>c. cmd = Json (JStr c) \<and> p = length (promises st) \<and>
     sent (snd (send cmd payload ms st)) = sent st @ [request c payload (msgId st)] \<and>
     promises (snd (send cmd payload ms st)) ! p = Pending \<and>
     timers (snd (send cmd payload ms st)) ! length (timers st) =
       \<lparr>t_status = Armed, t_handler = Reject_promise p,
        t_delay = Millis (case ms of None \<Rightarrow> 2000 | Some n \<Rightarrow> n),
        t_args = [timeout_error c (case ms of None \<Rightarrow> 2000 | Some n \<Rightarrow> n)]\<rparr> \<and>
     map_of (awaitingReply (snd (send cmd payload ms st))) (msgId st) =
       Some \<lparr>a_timer = length (timers st), a_promise = p\<rparr> \<and>
     tracked (snd (send cmd payload ms st)) (msgId st) (length (timers st)) p
       (Millis (case ms of None \<Rightarrow> 2000 | Some n \<Rightarrow> n))
       (timeout_error c (case ms of None \<Rightarrow> 2000 | Some n \<Rightarrow> n))"
proof -
  let ?st1 = "snd (send cmd payload ms st)"
  let ?m = "case ms of None \<Rightarrow> 2000 | Some n \<Rightarrow> n"
  from awaits_after_send [OF c s] obtain c' where cm: "cmd = Json (JStr c')"
    and a: "awaits ?st1 (msgId st) (length (timers st)) p (timeout_error c' ?m)" by blast
  from send_Some [OF s] cm have p: "p = length (promises st)"
    and t: "timers ?st1 = timers st @ [\<lparr>t_status = Armed, t_handler = Reject_promise p,
         t_delay = Millis ?m, t_args = [timeout_error c' ?m]\<rparr>]"
    and pr: "promises ?st1 = promises st @ [Pending]"
    and mp: "awaitingReply ?st1 =
       AList.update (msgId st) \<lparr>a_timer = length (timers st), a_promise = p\<rparr> (awaitingReply st)"
    by auto
  from s cm have sn: "sent ?st1 = sent st @ [request c' payload (msgId st)]"
    by (auto simp: send_def Let_def new_promise_def setTimeout_def add_timer_def dbg_def
      ws_send_def split: if_splits)
  from a t have "tracked ?st1 (msgId st) (length (timers st)) p (Millis ?m) (timeout_error c' ?m)"
    by (simp add: tracked_def awaits_def)
  with cm p sn t pr mp show ?thesis by (simp add: update_conv')
qed

section \<open>Replies to an unknown id\<close>

text \<open>
  C1. The specification has a reply, error reply or binary-reply marker whose id is not a
  key of the pending-request map pass without effect: no exception, at most a debug
  entry. The handler does otherwise. On an endpoint that is not destroyed, such an
  envelope makes \<^verbatim>\<open>Map.get\<close> return \<^verbatim>\<open>undefined\<close>, the destructuring of that throws a
  TypeError out of the handler, and the branch that would log the un-awaited reply is
  never reached. The state at the throw is the state after the \<^verbatim>\<open>incoming\<close> debug
  entry.
\<close>

theorem C1_unknown_reply_id_throws:
  assumes "\<not> destroyed st"
    and "field ''cmd'' v = Some c" and "is_reply_tag c"
    and "awaiting_get (awaitingReply st) (field ''id'' v) = None"
  shows "onMessage (Text_data (Some v)) st =
    (Inl (type_error ''Cannot destructure property resolve of undefined.''), dbg ''incoming'' st)"
proof -
  from assms(2) have "v \<noteq> JNull" by (auto simp: field_def)
  then have d: "destructure v = Inr (field ''cmd'' v, field ''payload'' v, field ''id'' v)"
    by (simp add: destructure_def)
  have a: "awaitingReply (dbg ''incoming'' st) = awaitingReply st"
    by (simp add: dbg_def)
  show ?thesis
    using assms by (simp add: onMessage_def d on_reply_def a)
qed

theorem C1_unknown_reply_id_witness:
  "onMessage (Text_data (Some (JObj [(''cmd'', JStr ''int:reply''), (''payload'', JStr ''late''),
       (''id'', JNum 7)])))
     (new_endpoint Node True None False) =
    (Inl (type_error ''Cannot destructure property resolve of undefined.''),
     (new_endpoint Node True None False)\<lparr>console := [''incoming'']\<rparr>)"
  using C1_unknown_reply_id_throws [of "new_endpoint Node True None False"
     "JObj [(''cmd'', JStr ''int:reply''), (''payload'', JStr ''late''), (''id'', JNum 7)]"
     "JStr ''int:reply''"]
  by (simp add: new_endpoint_def field_def is_reply_tag_def awaiting_get_def awaiting_key_def
      dbg_def)

section \<open>Binding a transport that is already closed or open\<close>

text \<open>
  C2. The specification has \<^verbatim>\<open>changeWebSocket\<close> schedule, for the next tick, a
  \<^verbatim>\<open>close\<close> notification with code 4001 when the new transport is already closed, and
  an \<^verbatim>\<open>open\<close> notification when it is already open. The code means to, and calls
  \<^verbatim>\<open>setTimeout(0, this.emit.bind(this), ...)\<close>: the delay where the handler belongs
  and the handler where the delay belongs. On Node the call throws out of
  \<^verbatim>\<open>changeWebSocket\<close> (and out of the constructor); in a browser it arms a timer that runs
  the source text \<^verbatim>\<open>0\<close>. Either way the notification reaches no subscriber: no firing of
  any timer calls a function of the user; what \<^verbatim>\<open>changeWebSocket\<close> itself delivers (the
  emitter's \<^verbatim>\<open>newListener\<close> event for the close hook it registers, to the subscribers of
  that event) contains neither notification; and when \<^verbatim>\<open>newListener\<close> has no subscriber
  nothing is delivered at all. The closed transport itself is left as it was given, as
  the specification says.
\<close>

theorem C2_bind_notification_never_delivered:
  assumes "\<not> destroyed st" and "readyState t = CLOSED \<or> readyState t = OPEN"
  shows "(\<forall>ks. delivered (run (map Fire ks) (snd (changeWebSocket t st))) =
            delivered (snd (changeWebSocket t st))) \<and>
         (\<exists>news. delivered (snd (changeWebSocket t st)) = delivered st @ news \<and>
            (\<forall>e \<in> set news. \<not> bind_notification e)) \<and>
         (subscribers ''newListener'' st = [] \<longrightarrow>
            delivered (snd (changeWebSocket t st)) = delivered st) \<and>
         (host st = Node \<longrightarrow>
            fst (changeWebSocket t st) =
              Inl (callback_type_error (JNum 0))) \<and>
         (readyState t = CLOSED \<longrightarrow> ws (snd (changeWebSocket t st)) = Some t)"
proof -
  have n: "fst (changeWebSocket t st) =
      Inl (callback_type_error (JNum 0))" if "host st = Node"
    using assms(2) that
    by (auto simp: changeWebSocket_closed [OF assms(1)] changeWebSocket_open [OF assms(1)] Let_def)
  have w: "ws (snd (changeWebSocket t st)) = Some t" if "readyState t = CLOSED"
    using that by (simp add: changeWebSocket_closed [OF assms(1)] Let_def split: host.splits)
  have d: "delivered (snd (changeWebSocket t st)) =
      delivered (once_event ''close'' Close_hook (removeWsListeners st))"
    using assms(1) by (simp add: delivered_changeWebSocket)
  from once_event_delivers [of "''close''" Close_hook "removeWsListeners st"]
  have a: "\<exists>news. delivered (snd (changeWebSocket t st)) = delivered st @ news \<and>
      (\<forall>e \<in> set news. \<not> bind_notification e)"
    by (simp add: d)
  have s: "delivered (snd (changeWebSocket t st)) = delivered st"
    if "subscribers ''newListener'' st = []"
    using that by (simp add: d once_event_silent)
  from n w a s show ?thesis by (simp add: delivered_fire_all)
qed


theorem C2_bind_notification_never_delivered_witness:
  "\<not> destroyed (on_event ''close'' (User_listener 0) (new_endpoint Node False None False)) \<and>
   readyState closed_socket = CLOSED \<and>
   subscribers ''close'' (snd (changeWebSocket closed_socket
      (on_event ''close'' (User_listener 0) (new_endpoint Node False None False)))) =
     [(''close'', None, User_listener 0), (''close'', Some 0, Close_hook)] \<and>
   subscribers ''newListener''
      (on_event ''close'' (User_listener 0) (new_endpoint Node False None False)) = [] \<and>
   fst (changeWebSocket closed_socket
      (on_event ''close'' (User_listener 0) (new_endpoint Node False None False))) =
     Inl (callback_type_error (JNum 0)) \<and>
   delivered (run (map Fire [0, 1, 2]) (snd (changeWebSocket closed_socket
      (on_event ''close'' (User_listener 0) (new_endpoint Node False None False))))) = []"
proof -
  let ?st = "on_event ''close'' (User_listener 0) (new_endpoint Node False None False)"
  have a: "\<not> destroyed ?st" "readyState closed_socket = CLOSED" "host ?st = Node"
    "delivered ?st = []" "subscribers ''newListener'' ?st = []"
    by (simp_all add: on_event_def newListener_def subscribers_def new_endpoint_def
        closed_socket_def)
  have st: "?st = (new_endpoint Node False None False)\<lparr>listeners := [(''close'', None, User_listener 0)]\<rparr>"
    by (simp add: on_event_def newListener_def subscribers_def new_endpoint_def)
  have s: "subscribers ''close'' (snd (changeWebSocket closed_socket ?st)) =
      [(''close'', None, User_listener 0), (''close'', Some 0, Close_hook)]"
    unfolding st
    by (simp add: changeWebSocket_def new_endpoint_def removeWsListeners_def once_event_def
        newListener_def subscribers_def isClosed_def closed_socket_def setTimeout_def Let_def)
  from C2_bind_notification_never_delivered [OF a(1), of closed_socket] a(2,3,5)
  have al: "\<forall>ks. delivered (run (map Fire ks) (snd (changeWebSocket closed_socket ?st))) =
      delivered (snd (changeWebSocket closed_socket ?st))"
    and dl: "delivered (snd (changeWebSocket closed_socket ?st)) = delivered ?st"
    and e: "fst (changeWebSocket closed_socket ?st) =
      Inl (callback_type_error (JNum 0))"
    by blast+
  from al have "delivered (run (map Fire [0, 1, 2]) (snd (changeWebSocket closed_socket ?st))) =
      delivered (snd (changeWebSocket closed_socket ?st))" by (rule spec)
  with a(4) dl have f: "delivered (run (map Fire [0, 1, 2])
      (snd (changeWebSocket closed_socket ?st))) = []" by (simp only:)
  from a(1,2,5) s e f show ?thesis by blast
qed

section \<open>Refused command names\<close>

text \<open>
  C3, as stated: a command name that is not a string, starts with \<^verbatim>\<open>int:\<close> or is
  reserved makes \<^verbatim>\<open>send\<close> raise a configuration error in every state of the
  endpoint, destroyed or not open included. It does not: \<^verbatim>\<open>send\<close> first returns
  \<^verbatim>\<open>undefined\<close> when the endpoint is destroyed or its transport is not open, and only
  then looks at the name. On a destroyed endpoint and on one without a transport the
  refused names below raise nothing.
\<close>

theorem C3_guard_precedes_validation_counterexample:
  "invalid_cmd (Json (JStr ''int:reply'')) \<and> invalid_cmd (Json (JNum 5)) \<and>
   destroyed (destroy (new_endpoint Node False None False)) \<and>
   send (Json (JStr ''int:reply'')) Undefined None (destroy (new_endpoint Node False None False)) =
     (Inr None, destroy (new_endpoint Node False None False)) \<and>
   \<not> isOpen (new_endpoint Node False None False) \<and>
   send (Json (JNum 5)) Undefined None (new_endpoint Node False None False) =
     (Inr None, new_endpoint Node False None False)"
  by (simp add: invalid_cmd_def starts_with_def send_not_usable destroy_def new_endpoint_def
      removeAllListeners_def isOpen_def)

text \<open>
  C3, amended: for a refused name, \<^verbatim>\<open>send\<close> raises the configuration error when the
  endpoint is not destroyed and its transport is open, and is the silent no-op
  otherwise; in both cases the state is left as it was, so no frame is sent.
\<close>

theorem C3_invalid_cmd:
  assumes "invalid_cmd cmd"
  shows "(\<not> destroyed st \<and> isOpen st \<longrightarrow>
            (\<exists>msg. send cmd payload ms st = (Inl (api_error msg ''INVALID_PARAMETER''), st))) \<and>
         (destroyed st \<or> \<not> isOpen st \<longrightarrow> send cmd payload ms st = (Inr None, st)) \<and>
         sent (snd (send cmd payload ms st)) = sent st"
proof -
  have a: "\<exists>msg. send cmd payload ms st = (Inl (api_error msg ''INVALID_PARAMETER''), st)"
    if "\<not> destroyed st" "isOpen st"
    using that assms
    by (auto simp: send_def invalid_cmd_def split: jsval.splits json.splits)
  have b: "send cmd payload ms st = (Inr None, st)" if "destroyed st \<or> \<not> isOpen st"
    using that by (rule send_not_usable)
  from a b show ?thesis by (cases "destroyed st \<or> \<not> isOpen st") auto
qed

theorem C3_invalid_cmd_witness:
  "invalid_cmd (Json (JStr ''close'')) \<and>
   \<not> destroyed (live_endpoint Node False) \<and> isOpen (live_endpoint Node False) \<and>
   (\<exists>msg. send (Json (JStr ''close'')) (Json (JNum 1)) (Some 50) (live_endpoint Node False) =
      (Inl (api_error msg ''INVALID_PARAMETER''), live_endpoint Node False)) \<and>
   sent (snd (send (Json (JStr ''close'')) (Json (JNum 1)) (Some 50) (live_endpoint Node False))) =
     sent (live_endpoint Node False)"
proof -
  have i: "invalid_cmd (Json (JStr ''close''))"
    by (simp add: invalid_cmd_def reserved_def)
  have d: "\<not> destroyed (live_endpoint Node False)" and o: "isOpen (live_endpoint Node False)"
    by (simp_all add: live_endpoint_eq isOpen_def)
  from C3_invalid_cmd [OF i, of "live_endpoint Node False" "Json (JNum 1)" "Some 50"] i d o
  show ?thesis by blast
qed

section \<open>When an entry leaves the pending-request map\<close>

text \<open>
  C4, as stated: an entry is removed from the pending-request map exactly when its
  request is settled, and in particular when the timeout fires. Two runs of one request
  say otherwise. A binary-reply marker for the request removes the entry while the
  promise is still pending (it is settled by the binary frame that follows). And when
  the timer fires, the promise is rejected with the timeout error while the entry stays
  in the map: the timer is given the promise's own \<^verbatim>\<open>reject\<close>, and nothing on that
  path calls \<^verbatim>\<open>delete\<close>.
\<close>

theorem C4_entries_leave_counterexample:
  "awaitingReply (run (one_request @
      [Message (Text_data (Some (JObj [(''cmd'', JStr ''int:binaryReply''), (''id'', JNum 0)])))])
      (new_endpoint Node False None False)) = [] \<and>
   promises (run (one_request @
      [Message (Text_data (Some (JObj [(''cmd'', JStr ''int:binaryReply''), (''id'', JNum 0)])))])
      (new_endpoint Node False None False)) = [Pending] \<and>
   promises (run (one_request @ [Fire 0]) (new_endpoint Node False None False)) =
     [Rejected (timeout_error ''echo'' 50)] \<and>
   awaitingReply (run (one_request @ [Fire 0]) (new_endpoint Node False None False)) =
     [(0, \<lparr>a_timer = 0, a_promise = 0\<rparr>)]"
  by code_simp

text \<open>
  C4, amended: take an entry of the map of an endpoint reached from a new one (such an
  endpoint has not been destroyed). A reply or error reply with the entry's id removes
  it and settles the request in the same step (with the payload, unless the timeout had
  fired already); a binary-reply marker with its id removes it and puts its closures in
  the binary slot without settling anything; \<^verbatim>\<open>destroy\<close> empties the map and settles
  nothing. Nothing else removes it: after any step other than the firing of its own
  timer, the entry is gone exactly if the step was a reply, error reply or marker with
  its id or left the endpoint destroyed, and is otherwise unchanged under its id. The
  firing of its timer rejects the request with a timeout error.
\<close>

theorem C4_entries_leave:
  fixes h :: host and d :: bool and b :: "string option" and doc :: bool
    and before :: "op list" and v :: json
  defines "st \<equiv> run before (new_endpoint h d b doc)"
  defines "st' \<equiv> snd (onMessage (Text_data (Some v)) (run before (new_endpoint h d b doc)))"
  assumes "field ''cmd'' v = Some c" and "is_reply_tag c"
    and "awaiting_key (field ''id'' v) = Some n" and "map_of (awaitingReply st) n = Some a"
  shows "map_of (awaitingReply st') n = None \<and>
     (c = JStr ''int:reply'' \<longrightarrow> promises st' ! a_promise a \<noteq> Pending \<and>
        (promises st ! a_promise a = Pending \<longrightarrow>
           promises st' ! a_promise a = Resolved (val (field ''payload'' v)))) \<and>
     (c = JStr ''int:errorReply'' \<longrightarrow> promises st' ! a_promise a \<noteq> Pending \<and>
        (promises st ! a_promise a = Pending \<longrightarrow>
           promises st' ! a_promise a = Rejected (val (field ''payload'' v)))) \<and>
     (c = JStr ''int:binaryReply'' \<longrightarrow>
        awaitingBinaryReply st' = Some a \<and> promises st' = promises st) \<and>
     awaitingReply (destroy st) = [] \<and> promises (destroy st) = promises st \<and>
     (\<forall>x. x \<noteq> Fire (a_timer a) \<longrightarrow>
        map_of (awaitingReply (step x st)) n =
          (if answers n x \<or> destroyed (step x st) then None else Some a)) \<and>
     (\<exists>cm ms. promises (fire_timer (a_timer a) st) ! a_promise a = Rejected (timeout_error cm ms))"
proof -
  have cs: "consistent st" unfolding st_def by (rule consistent_reachable)
  have td: "tidy st" unfolding st_def by (rule tidy_reachable)
  have kb: "keys_below st" unfolding st_def by (rule keys_below_reachable)
  from td assms(6) have nd: "\<not> destroyed st" by (auto simp: tidy_def)
  note hf = holder_fires [OF cs in_holders_map [OF assms(6)]]
  then have pl: "a_promise a < length (promises st)" by simp
  from assms(5,6) have g: "awaiting_get (awaitingReply st) (field ''id'' v) = Some a"
    and dl: "awaiting_delete (field ''id'' v) (awaitingReply st) = AList.delete n (awaitingReply st)"
    by (simp_all add: awaiting_get_def awaiting_delete_def)
  have om: "st' = snd (on_reply c (field ''payload'' v) (field ''id'' v) (dbg ''incoming'' st))"
    unfolding st'_def st_def [symmetric]
    using nd assms(4) by (simp add: onMessage_def destructure_object [OF assms(3)])
  have m: "map_of (awaitingReply st') n = None"
    by (simp add: om on_reply_def g dl Let_def delete_conv')
  have r: "promises st' ! a_promise a \<noteq> Pending \<and>
      (promises st ! a_promise a = Pending \<longrightarrow>
         promises st' ! a_promise a = Resolved (val (field ''payload'' v)))"
    if "c = JStr ''int:reply''"
    using that pl by (simp add: om on_reply_def g Let_def settle_promises)
  have e: "promises st' ! a_promise a \<noteq> Pending \<and>
      (promises st ! a_promise a = Pending \<longrightarrow>
         promises st' ! a_promise a = Rejected (val (field ''payload'' v)))"
    if "c = JStr ''int:errorReply''"
    using that pl by (simp add: om on_reply_def g Let_def settle_promises)
  have bn: "awaitingBinaryReply st' = Some a \<and> promises st' = promises st"
    if "c = JStr ''int:binaryReply''"
    using that by (simp add: om on_reply_def g Let_def)
  from nd have ds: "awaitingReply (destroy st) = []"
    by (simp add: awaitingReply_destroy)
  note en = entry_step [OF td kb assms(6)]
  from m r e bn ds hf en show ?thesis by simp
qed

theorem C4_entries_leave_witness:
  "is_reply_tag (JStr ''int:reply'') \<and>
   map_of (awaitingReply (run one_request (new_endpoint Node False None False))) 0 =
     Some \<lparr>a_timer = 0, a_promise = 0\<rparr> \<and>
   promises (run one_request (new_endpoint Node False None False)) ! 0 = Pending \<and>
   map_of (awaitingReply (snd (onMessage
       (Text_data (Some (JObj [(''cmd'', JStr ''int:reply''), (''payload'', JStr ''hi''), (''id'', JNum 0)])))
       (run one_request (new_endpoint Node False None False))))) 0 = None \<and>
   promises (snd (onMessage
       (Text_data (Some (JObj [(''cmd'', JStr ''int:reply''), (''payload'', JStr ''hi''), (''id'', JNum 0)])))
       (run one_request (new_endpoint Node False None False)))) ! 0 = Resolved (Json (JStr ''hi'')) \<and>
   map_of (awaitingReply (step (Send (Json (JStr ''sum'')) (Json (JNum 2)) None)
       (run one_request (new_endpoint Node False None False)))) 0 =
     Some \<lparr>a_timer = 0, a_promise = 0\<rparr>"
proof -
  let ?st = "run one_request (new_endpoint Node False None False)"
  let ?v = "JObj [(''cmd'', JStr ''int:reply''), (''payload'', JStr ''hi''), (''id'', JNum 0)]"
  let ?x = "Send (Json (JStr ''sum'')) (Json (JNum 2)) None"
  have f: "field ''cmd'' ?v = Some (JStr ''int:reply'')" by (simp add: field_def)
  have t: "is_reply_tag (JStr ''int:reply'')" by (simp add: is_reply_tag_def)
  have k: "awaiting_key (field ''id'' ?v) = Some 0" by (simp add: field_def awaiting_key_def)
  have g: "map_of (awaitingReply ?st) 0 = Some \<lparr>a_timer = 0, a_promise = 0\<rparr>" by code_simp
  have p: "promises ?st ! 0 = Pending" by code_simp
  have pv: "val (field ''payload'' ?v) = Json (JStr ''hi'')" by (simp add: field_def val_def)
  have x: "\<not> answers 0 ?x" "\<not> destroyed (step ?x ?st)" by (simp add: answers_def, code_simp)
  from C4_entries_leave [OF f t k g] p pv
  have "map_of (awaitingReply (snd (onMessage (Text_data (Some ?v)) ?st))) 0 = None \<and>
      promises (snd (onMessage (Text_data (Some ?v)) ?st)) ! 0 = Resolved (Json (JStr ''hi''))"
    by simp
  moreover from C4_entries_leave [OF f t k g] x
  have "map_of (awaitingReply (step ?x ?st)) 0 = Some \<lparr>a_timer = 0, a_promise = 0\<rparr>"
    by simp
  ultimately show ?thesis using t g p by blast
qed


section \<open>Timeouts\<close>

text \<open>
  C5. Take any endpoint reached from a new one and a \<^verbatim>\<open>send\<close> on it that returns a
  promise. The call has transmitted the request, left the promise pending and armed one
  timer, whose handler rejects that promise, whose delay is the duration given to
  \<^verbatim>\<open>send\<close> (2000 when none is given) and whose argument is the timeout error. Whatever
  happens afterwards, the timer keeps all three, and the promise is pending exactly
  while the timer is armed: a fired timer means a promise rejected with the timeout
  error, a cleared one a promise settled otherwise. A pending promise is settled by
  nothing but the firing of that timer, a reply or error reply with the request's id,
  or the binary frame that follows the request's marker. So as long as no reply or error
  reply with the id and no binary frame has arrived, the promise is pending with the
  timer armed, or already rejected with the timeout error; the firing of the timer
  rejects a pending promise with the timeout error and leaves a settled one alone; and
  once the timer has fired with no answer before it, the promise is rejected with the
  timeout error whatever comes later, a late reply included. The error's message
  contains the command name and the duration.
\<close>

theorem C5_timeout_rejects:
  fixes h :: host and d :: bool and b :: "string option" and doc :: bool
    and ms :: "nat option" and before :: "op list" and cmd payload :: jsval
  defines "st \<equiv> run before (new_endpoint h d b doc)"
  defines "m \<equiv> (case ms of None \<Rightarrow> 2000 | Some n \<Rightarrow> n)"
  defines "k \<equiv> length (timers (run before (new_endpoint h d b doc)))"
  defines "st1 \<equiv> snd (send cmd payload ms (run before (new_endpoint h d b doc)))"
  assumes "fst (send cmd payload ms st) = Inr (Some p)"
  shows "\<exists>c. cmd = Json (JStr c) \<and>
     sent st1 = sent st @ [request c payload (msgId st)] \<and>
     promises st1 ! p = Pending \<and>
     timers st1 ! k = \<lparr>t_status = Armed, t_handler = Reject_promise p, t_delay = Millis m,
        t_args = [timeout_error c m]\<rparr> \<and>
     (\<forall>ops. t_handler (timers (run ops st1) ! k) = Reject_promise p \<and>
        t_delay (timers (run ops st1) ! k) = Millis m \<and>
        t_args (timers (run ops st1) ! k) = [timeout_error c m] \<and>
        ((t_status (timers (run ops st1) ! k) = Armed \<and> promises (run ops st1) ! p = Pending) \<or>
         (t_status (timers (run ops st1) ! k) = Fired \<and>
            promises (run ops st1) ! p = Rejected (timeout_error c m)) \<or>
         (t_status (timers (run ops st1) ! k) = Cleared \<and>
            promises (run ops st1) ! p \<noteq> Pending))) \<and>
     (\<forall>ops x. promises (run ops st1) ! p = Pending \<and>
          promises (run (ops @ [x]) st1) ! p \<noteq> Pending \<longrightarrow>
        x = Fire k \<or> replies (msgId st) x \<or>
        (\<exists>data. x = Message (Binary_data data) \<and>
           awaitingBinaryReply (run ops st1) = Some \<lparr>a_timer = k, a_promise = p\<rparr>)) \<and>
     (\<forall>ops. (\<forall>x \<in> set ops. \<not> replies (msgId st) x \<and> (\<forall>data. x \<noteq> Message (Binary_data data))) \<longrightarrow>
        (t_status (timers (run ops st1) ! k) = Armed \<and> promises (run ops st1) ! p = Pending) \<or>
        promises (run ops st1) ! p = Rejected (timeout_error c m)) \<and>
     (\<forall>ops. promises (run (ops @ [Fire k]) st1) ! p =
        (if promises (run ops st1) ! p = Pending then Rejected (timeout_error c m)
         else promises (run ops st1) ! p)) \<and>
     (\<forall>ops later.
        (\<forall>x \<in> set ops. \<not> replies (msgId st) x \<and> (\<forall>data. x \<noteq> Message (Binary_data data))) \<longrightarrow>
        promises (run (ops @ [Fire k] @ later) st1) ! p = Rejected (timeout_error c m)) \<and>
     (\<exists>x y z. timeout_error c m =
        ErrorObj ''SimpleWebSocketAPI_Error'' (x @ c @ y @ show_nat m @ z) ''REPLY_TIMEOUT'')"
proof -
  have c: "consistent st" unfolding st_def by (rule consistent_reachable)
  have s1: "st1 = snd (send cmd payload ms st)" by (simp add: st1_def st_def)
  have kk: "k = length (timers st)" by (simp add: k_def st_def)
  from tracked_after_send [OF c assms(5)] obtain c' where cm: "cmd = Json (JStr c')"
    and sn: "sent st1 = sent st @ [request c' payload (msgId st)]"
    and pe: "promises st1 ! p = Pending"
    and tm: "timers st1 ! k = \<lparr>t_status = Armed, t_handler = Reject_promise p,
        t_delay = Millis m, t_args = [timeout_error c' m]\<rparr>"
    and tr: "tracked st1 (msgId st) k p (Millis m) (timeout_error c' m)"
    unfolding s1 kk m_def by blast
  let ?e = "timeout_error c' m"
  have R: "tracked (run ops st1) (msgId st) k p (Millis m) ?e" for ops
    using tr by (rule tracked_run)
  have a: "t_handler (timers (run ops st1) ! k) = Reject_promise p \<and>
      t_delay (timers (run ops st1) ! k) = Millis m \<and>
      t_args (timers (run ops st1) ! k) = [?e] \<and>
      ((t_status (timers (run ops st1) ! k) = Armed \<and> promises (run ops st1) ! p = Pending) \<or>
       (t_status (timers (run ops st1) ! k) = Fired \<and> promises (run ops st1) ! p = Rejected ?e) \<or>
       (t_status (timers (run ops st1) ! k) = Cleared \<and> promises (run ops st1) ! p \<noteq> Pending))"
    for ops
    using tracked_state [OF R [of ops]] R [of ops] by (simp add: tracked_def)
  have b: "x = Fire k \<or> replies (msgId st) x \<or>
      (\<exists>data. x = Message (Binary_data data) \<and>
         awaitingBinaryReply (run ops st1) = Some \<lparr>a_timer = k, a_promise = p\<rparr>)"
    if "promises (run ops st1) ! p = Pending \<and> promises (run (ops @ [x]) st1) ! p \<noteq> Pending"
    for ops x
    using tracked_settled [OF R [of ops], of x] that by (simp add: run_append run_def)
  have u: "promises (run ops st1) ! p = Pending \<or> promises (run ops st1) ! p = Rejected ?e"
    if "\<forall>x \<in> set ops. \<not> replies (msgId st) x \<and> (\<forall>data. x \<noteq> Message (Binary_data data))"
    for ops
    using tracked_unanswered [OF tr _ that] pe by simp
  have e: "(t_status (timers (run ops st1) ! k) = Armed \<and> promises (run ops st1) ! p = Pending) \<or>
      promises (run ops st1) ! p = Rejected ?e"
    if "\<forall>x \<in> set ops. \<not> replies (msgId st) x \<and> (\<forall>data. x \<noteq> Message (Binary_data data))"
    for ops
    using u [OF that] a [of ops] by auto
  have f: "promises (run (ops @ [Fire k]) st1) ! p =
      (if promises (run ops st1) ! p = Pending then Rejected ?e else promises (run ops st1) ! p)"
    for ops
    using tracked_fire [OF R [of ops]] by (simp add: run_append run_def step_def)
  have g: "promises (run (ops @ [Fire k] @ later) st1) ! p = Rejected ?e"
    if "\<forall>x \<in> set ops. \<not> replies (msgId st) x \<and> (\<forall>data. x \<noteq> Message (Binary_data data))"
    for ops later
  proof -
    from u [OF that] f [of ops] have r: "promises (run (ops @ [Fire k]) st1) ! p = Rejected ?e"
      by auto
    from tracked_state [OF R [of "ops @ [Fire k]"]]
    have l: "p < length (promises (run (ops @ [Fire k]) st1))" by simp
    from settled_run [OF l, of later] r show ?thesis by (simp add: run_def)
  qed
  from cm sn pe tm timeout_error_carries [of c' m] a b e f g show ?thesis by blast
qed

theorem C5_timeout_rejects_witness:
  "fst (send (Json (JStr ''echo'')) (Json (JNum 1)) (Some 50)
      (run [ChangeWebSocket connecting_socket, ReadyState OPEN] (new_endpoint Node False None False))) =
     Inr (Some 0) \<and>
   \<not> replies 0 (Message (Text_data (Some (JObj [(''cmd'', JStr ''int:binaryReply''), (''id'', JNum 0)])))) \<and>
   timers (snd (send (Json (JStr ''echo'')) (Json (JNum 1)) (Some 50)
      (run [ChangeWebSocket connecting_socket, ReadyState OPEN]
         (new_endpoint Node False None False)))) ! 0 =
     \<lparr>t_status = Armed, t_handler = Reject_promise 0, t_delay = Millis 50,
      t_args = [timeout_error ''echo'' 50]\<rparr> \<and>
   promises (run ([Message (Text_data (Some (JObj [(''cmd'', JStr ''int:binaryReply''), (''id'', JNum 0)])))] @
        [Fire 0] @
        [Message (Text_data (Some (JObj [(''cmd'', JStr ''int:reply''), (''payload'', JStr ''late''), (''id'', JNum 0)])))])
      (snd (send (Json (JStr ''echo'')) (Json (JNum 1)) (Some 50)
        (run [ChangeWebSocket connecting_socket, ReadyState OPEN]
           (new_endpoint Node False None False))))) ! 0 =
     Rejected (ErrorObj ''SimpleWebSocketAPI_Error''
       (''A reply for '' @ [CHR 0x22] @ ''echo'' @ [CHR 0x22] @
        '' was not received within the replyTimeout period of 50 ms.'') ''REPLY_TIMEOUT'')"
proof -
  let ?st = "run [ChangeWebSocket connecting_socket, ReadyState OPEN] (new_endpoint Node False None False)"
  let ?st1 = "snd (send (Json (JStr ''echo'')) (Json (JNum 1)) (Some 50) ?st)"
  let ?mk = "Message (Text_data (Some (JObj [(''cmd'', JStr ''int:binaryReply''), (''id'', JNum 0)])))"
  let ?late = "Message (Text_data (Some (JObj [(''cmd'', JStr ''int:reply''), (''payload'', JStr ''late''), (''id'', JNum 0)])))"
  have s: "fst (send (Json (JStr ''echo'')) (Json (JNum 1)) (Some 50) ?st) = Inr (Some 0)"
    by code_simp
  have i: "msgId ?st = 0" and t: "length (timers ?st) = 0"
    by code_simp+
  have n: "\<not> replies 0 ?mk"
    by (simp add: replies_def field_def)
  have e: "timeout_error ''echo'' 50 = ErrorObj ''SimpleWebSocketAPI_Error''
       (''A reply for '' @ [CHR 0x22] @ ''echo'' @ [CHR 0x22] @
        '' was not received within the replyTimeout period of 50 ms.'') ''REPLY_TIMEOUT''"
    by code_simp
  from n i have h: "\<forall>x \<in> set [?mk]. \<not> replies (msgId ?st) x \<and> (\<forall>data. x \<noteq> Message (Binary_data data))"
    by simp
  from C5_timeout_rejects [OF s] obtain c where c: "Json (JStr ''echo'') = Json (JStr c)"
    and tm: "timers ?st1 ! length (timers ?st) =
      \<lparr>t_status = Armed, t_handler = Reject_promise 0, t_delay = Millis 50,
       t_args = [timeout_error c 50]\<rparr>"
    and g: "\<forall>ops later.
        (\<forall>x \<in> set ops. \<not> replies (msgId ?st) x \<and> (\<forall>data. x \<noteq> Message (Binary_data data))) \<longrightarrow>
        promises (run (ops @ [Fire (length (timers ?st))] @ later) ?st1) ! 0 =
          Rejected (timeout_error c 50)"
    by (simp only: option.case) blast
  from c have c': "c = ''echo''" by simp
  from g h have "promises (run ([?mk] @ [Fire (length (timers ?st))] @ [?late]) ?st1) ! 0 =
      Rejected (timeout_error c 50)" by blast
  with tm s n show ?thesis unfolding t c' e by blast
qed

section \<open>Message ids\<close>

text \<open>
  C6. The id counter starts at 0. A \<^verbatim>\<open>send\<close> of a user command name on an endpoint that
  is not destroyed and whose transport is open returns a promise, transmits exactly one
  frame, the envelope carrying the counter's value as id, and adds one to the counter.
  Changing the transport leaves the counter alone, and no operation ever lowers it. So
  after any run from a new endpoint the request ids on the wire are \<open>0, 1, 2, ...\<close> up
  to the counter, in order: strictly increasing and without repetition.
\<close>

theorem C6_message_ids:
  "msgId (new_endpoint h d b c) = 0 \<and>
   (\<forall>st cmd payload ms. \<not> destroyed st \<and> isOpen st \<and> user_command cmd \<longrightarrow>
      (\<exists>p st'. send (Json (JStr cmd)) payload ms st = (Inr (Some p), st') \<and>
         sent st' = sent st @ [request cmd payload (msgId st)] \<and> msgId st' = msgId st + 1)) \<and>
   (\<forall>st t. msgId (snd (changeWebSocket t st)) = msgId st) \<and>
   (\<forall>st x. msgId st \<le> msgId (step x st)) \<and>
   request_ids (sent (run ops (new_endpoint h d b c))) =
     map int [0..<msgId (run ops (new_endpoint h d b c))] \<and>
   sorted_wrt (<) (request_ids (sent (run ops (new_endpoint h d b c)))) \<and>
   distinct (request_ids (sent (run ops (new_endpoint h d b c))))"
proof -
  have "ids_ok (new_endpoint h d b c)"
    by (simp add: ids_ok_def new_endpoint_def request_ids_def List.map_filter_def)
  then have "ids_ok (run ops (new_endpoint h d b c))" by (rule ids_ok_run)
  then have i: "request_ids (sent (run ops (new_endpoint h d b c))) =
      map int [0..<msgId (run ops (new_endpoint h d b c))]" by (simp add: ids_ok_def)
  have z: "msgId (new_endpoint h d b c) = 0" by (simp add: new_endpoint_def)
  from i z show ?thesis
    using send_valid changeWebSocket_ids msgId_step
    by (simp add: sorted_ints distinct_ints)
qed

theorem C6_message_ids_witness:
  "\<not> destroyed (live_endpoint Node False) \<and> isOpen (live_endpoint Node False) \<and>
   user_command ''echo'' \<and>
   (\<exists>p st'. send (Json (JStr ''echo'')) (Json (JNum 1)) None (live_endpoint Node False) =
        (Inr (Some p), st') \<and>
      sent st' = [request ''echo'' (Json (JNum 1)) 0] \<and> msgId st' = 1) \<and>
   request_ids (sent (run two_sends (new_endpoint Node False None False))) = [0, 1]"
proof -
  note c = C6_message_ids [of Node False None False two_sends]
  have a: "\<not> destroyed (live_endpoint Node False)" "isOpen (live_endpoint Node False)"
    "user_command ''echo''" "sent (live_endpoint Node False) = []"
    "msgId (live_endpoint Node False) = 0"
    by (simp_all add: live_endpoint_eq isOpen_def user_command_def starts_with_def reserved_def)
  from c [THEN conjunct2, THEN conjunct1, rule_format,
      of "live_endpoint Node False" "''echo''" "Json (JNum 1)" None] a
  have s: "\<exists>p st'. send (Json (JStr ''echo'')) (Json (JNum 1)) None (live_endpoint Node False) =
        (Inr (Some p), st') \<and>
      sent st' = [request ''echo'' (Json (JNum 1)) 0] \<and> msgId st' = 1"
    by simp
  have m: "msgId (run two_sends (new_endpoint Node False None False)) = 2"
    by code_simp
  have u: "map int [0..<2] = [0, 1]"
    by code_simp
  from c have "request_ids (sent (run two_sends (new_endpoint Node False None False))) =
      map int [0..<msgId (run two_sends (new_endpoint Node False None False))]"
    by blast
  with m u have r: "request_ids (sent (run two_sends (new_endpoint Node False None False))) = [0, 1]"
    by simp
  from a(1-3) s r show ?thesis by blast
qed

section \<open>Commands without a listener\<close>

text \<open>
  C7, as stated: every incoming user command without a subscriber is answered with one
  error reply. The reply goes through \<^verbatim>\<open>#reply\<close>, which returns at once unless the
  transport is open: a command that arrives while the socket is closing gets no answer.
\<close>

theorem C7_not_open_counterexample:
  "user_command ''foo'' \<and>
   subscribers ''foo'' (step (ReadyState CLOSING) (live_endpoint Node False)) = [] \<and>
   onMessage (Text_data (Some (JObj [(''cmd'', JStr ''foo''), (''id'', JNum 1)])))
     (step (ReadyState CLOSING) (live_endpoint Node False)) =
   (Inr (), step (ReadyState CLOSING) (live_endpoint Node False)) \<and>
   sent (step (ReadyState CLOSING) (live_endpoint Node False)) = []"
  by (simp add: live_endpoint_eq step_def user_command_def starts_with_def reserved_def
      subscribers_def onMessage_def destructure_def field_def is_reply_tag_def
      on_command_def emit_def emit_with_def reply_def isOpen_def dbg_def val_def
      OPEN_def CLOSING_def)

text \<open>
  C7, amended: on an endpoint that is not destroyed, an incoming envelope whose
  \<^verbatim>\<open>cmd\<close> is a user command name without a subscriber is answered, when the
  transport is open, with exactly one frame: the error reply for the envelope's id with
  the payload \<^verbatim>\<open>"No listener for command: " + cmd\<close>. When the transport is not
  open nothing is sent.
\<close>

theorem C7_no_listener_error_reply:
  assumes "\<not> destroyed st"
    and "field ''cmd'' v = Some (JStr c)" and "user_command c" and "subscribers c st = []"
  shows "(isOpen st \<longrightarrow>
            onMessage (Text_data (Some v)) st =
              (Inr (), ws_send (reply_frame True (Json (JStr (''No listener for command: '' @ c)))
                          (val (field ''id'' v)))
                        (dbg ''outgoing'' (dbg ''incoming'' st))) \<and>
            sent (snd (onMessage (Text_data (Some v)) st)) =
              sent st @ [reply_frame True (Json (JStr (''No listener for command: '' @ c)))
                          (val (field ''id'' v))]) \<and>
         (\<not> isOpen st \<longrightarrow>
            onMessage (Text_data (Some v)) st = (Inr (), dbg ''incoming'' st) \<and>
            sent (snd (onMessage (Text_data (Some v)) st)) = sent st)"
proof -
  have tag: "\<not> is_reply_tag (JStr c)"
    using assms(3) reply_tag_prefixed [of c] by (auto simp: user_command_def)
  have ne: "JStr c \<noteq> JStr ''error''"
    using assms(3) by (auto simp: user_command_def reserved_def)
  have e: "emit (JStr c) args (dbg ''incoming'' st) = (Inr False, dbg ''incoming'' st)" for args
    using assms(4) ne by (intro emit_no_subscriber) simp_all
  have m: "onMessage (Text_data (Some v)) st =
      reply (val (field ''id'' v)) (Json (JStr (''No listener for command: '' @ c))) True
        (dbg ''incoming'' st)"
    using assms(1) tag
    by (simp add: onMessage_def destructure_object [OF assms(2)] on_command_def e)
  show ?thesis
    using assms(1) by (simp add: m reply_def is_binary_def ws_send_def)
qed

theorem C7_no_listener_error_reply_witness:
  "\<not> destroyed (live_endpoint Node False) \<and> user_command ''foo'' \<and>
   subscribers ''foo'' (live_endpoint Node False) = [] \<and> isOpen (live_endpoint Node False) \<and>
   sent (snd (onMessage (Text_data (Some (JObj [(''cmd'', JStr ''foo''), (''id'', JNum 1)])))
     (live_endpoint Node False))) =
   [Sent_json [(''cmd'', Json (JStr ''int:errorReply'')),
               (''payload'', Json (JStr ''No listener for command: foo'')),
               (''id'', Json (JNum 1))]]"
proof -
  have a: "\<not> destroyed (live_endpoint Node False)" "user_command ''foo''"
    "subscribers ''foo'' (live_endpoint Node False) = []" "isOpen (live_endpoint Node False)"
    "sent (live_endpoint Node False) = []"
    by (simp_all add: live_endpoint_eq user_command_def starts_with_def reserved_def
        subscribers_def isOpen_def)
  have f: "field ''cmd'' (JObj [(''cmd'', JStr ''foo''), (''id'', JNum 1)]) = Some (JStr ''foo'')"
    "val (field ''id'' (JObj [(''cmd'', JStr ''foo''), (''id'', JNum 1)])) = Json (JNum 1)"
    by (simp_all add: field_def val_def)
  from C7_no_listener_error_reply [OF a(1) f(1) a(2) a(3)] a f(2)
  show ?thesis by (simp add: reply_frame_def ws_send_def)
qed

section \<open>Binary replies\<close>

text \<open>
  C8, as stated: a binary payload with the error flag set makes the reply helper raise a
  configuration error to its caller, and no frame is sent. \<^verbatim>\<open>#reply\<close> does throw, but
  inside the \<^verbatim>\<open>try\<close> of the helper, whose \<^verbatim>\<open>catch\<close> sends what it caught as an
  error reply: the caller sees nothing, and the error object goes to the peer.
\<close>

theorem C8_binary_error_is_sent_counterexample:
  "is_binary (Binary ArrayBuffer [1, 2]) \<and>
   replyFunc (Json (JNum 3)) (Plain (Fulfils (Binary ArrayBuffer [1, 2]))) True
      (live_endpoint Node False) =
     (Inr (), (live_endpoint Node False)\<lparr>sent :=
        [Sent_json [(''cmd'', Json (JStr ''int:errorReply'')),
                    (''payload'', api_error ''Can't send a binary error reply.'' ''INVALID_PARAMETER''),
                    (''id'', Json (JNum 3))]]\<rparr>)"
  by (simp add: live_endpoint_eq replyFunc_def reply_def is_binary_def isOpen_def dbg_def
      ws_send_def reply_frame_def api_error_def)

text \<open>
  C8, amended: on an endpoint that is not destroyed and whose transport is open, with a
  binary payload and the error flag set, \<^verbatim>\<open>#reply\<close> throws the configuration error
  before it sends anything; the reply helper catches it, sends one error reply for the
  id with that error as payload, and completes normally. With the flag unset the helper
  sends the binary-reply marker carrying only the id, then the raw payload as a second
  frame, in that order.
\<close>

theorem C8_binary_reply:
  assumes "\<not> destroyed st" and "isOpen st" and "is_binary payload"
    and "arg = Plain (Fulfils payload) \<or> arg = Thunk (Fulfils payload)"
  shows "reply ident payload True st =
           (Inl (api_error ''Can't send a binary error reply.'' ''INVALID_PARAMETER''),
            dbg ''outgoing'' st) \<and>
         replyFunc ident arg True st =
           (Inr (), ws_send (reply_frame True
                     (api_error ''Can't send a binary error reply.'' ''INVALID_PARAMETER'') ident)
                   (dbg ''outgoing'' (dbg ''outgoing'' st))) \<and>
         replyFunc ident arg False st =
           (Inr (), ws_send (Sent_raw payload) (ws_send (marker_frame ident) (dbg ''outgoing'' st))) \<and>
         sent (snd (replyFunc ident arg False st)) = sent st @ [marker_frame ident, Sent_raw payload]"
proof -
  have r: "reply ident payload True st =
      (Inl (api_error ''Can't send a binary error reply.'' ''INVALID_PARAMETER''), dbg ''outgoing'' st)"
    using assms(1-3) by (simp add: reply_def)
  have nb: "\<not> is_binary (api_error m c)" for m c
    by (simp add: is_binary_def api_error_def)
  have r2: "reply ident (api_error m c) True (dbg ''outgoing'' st) =
      (Inr (), ws_send (reply_frame True (api_error m c) ident) (dbg ''outgoing'' (dbg ''outgoing'' st)))" for m c
    using assms(1,2) by (simp add: reply_def nb)
  have r3: "reply ident payload False st =
      (Inr (), ws_send (Sent_raw payload) (ws_send (marker_frame ident) (dbg ''outgoing'' st)))"
    using assms(1-3) by (simp add: reply_def)
  from assms(4) show ?thesis
    by (auto simp: replyFunc_def r r2 r3 ws_send_def)
qed

theorem C8_binary_reply_witness:
  "\<not> destroyed (live_endpoint Node False) \<and> isOpen (live_endpoint Node False) \<and>
   is_binary (Binary ArrayBufferView [7]) \<and>
   fst (reply (Json (JNum 3)) (Binary ArrayBufferView [7]) True (live_endpoint Node False)) =
     Inl (api_error ''Can't send a binary error reply.'' ''INVALID_PARAMETER'') \<and>
   sent (snd (replyFunc (Json (JNum 3)) (Thunk (Fulfils (Binary ArrayBufferView [7]))) False
     (live_endpoint Node False))) =
     [Sent_json [(''cmd'', Json (JStr ''int:binaryReply'')), (''id'', Json (JNum 3))],
      Sent_raw (Binary ArrayBufferView [7])]"
proof -
  have a: "\<not> destroyed (live_endpoint Node False)" "isOpen (live_endpoint Node False)"
    "is_binary (Binary ArrayBufferView [7])" "sent (live_endpoint Node False) = []"
    by (simp_all add: live_endpoint_eq isOpen_def is_binary_def)
  from C8_binary_reply [OF a(1-3), of "Thunk (Fulfils (Binary ArrayBufferView [7]))" "Json (JNum 3)"] a
  show ?thesis by (simp add: marker_frame_def ws_send_def)
qed

section \<open>Text frames that are not envelopes\<close>

text \<open>
  C9, as stated: every text frame that is not valid JSON makes the handler raise, and
  only frames that parse to an object without \<^verbatim>\<open>cmd\<close> are discarded with a debug
  notice. Two inputs say otherwise. The handler of a destroyed endpoint returns at its
  first line, before \<^verbatim>\<open>JSON.parse\<close>, whatever the frame; the transport still has the
  handler when the close hook was unsubscribed before \<^verbatim>\<open>destroy\<close>, as in the second
  run below. And the frame \<^verbatim>\<open>5\<close> parses to a number, not an object; destructuring a
  number yields an undefined \<^verbatim>\<open>cmd\<close>, and the frame is discarded with the notice.
\<close>

theorem C9_destroyed_or_scalar_counterexample:
  "onMessage (Text_data None) (destroy (live_endpoint Node True)) =
     (Inr (), destroy (live_endpoint Node True)) \<and>
   onMessage (Text_data None) (run [Unsubscribe_all, Destroy] (live_endpoint Node True)) =
     (Inr (), run [Unsubscribe_all, Destroy] (live_endpoint Node True)) \<and>
   map_option ws_listeners (ws (run [Unsubscribe_all, Destroy] (live_endpoint Node True))) =
     Some [(''open'', True), (''error'', True), (''close'', True), (''message'', False)] \<and>
   onMessage (Text_data (Some (JNum 5))) (live_endpoint Node True) =
     (Inr (), (live_endpoint Node True)\<lparr>console := [''incoming'', ''Invalid message received'']\<rparr>)"
proof -
  have 1: "onMessage (Text_data None) (destroy (live_endpoint Node True)) =
     (Inr (), destroy (live_endpoint Node True))"
    by (simp add: onMessage_def)
  have 2: "onMessage (Text_data None) (run [Unsubscribe_all, Destroy] (live_endpoint Node True)) =
     (Inr (), run [Unsubscribe_all, Destroy] (live_endpoint Node True)) \<and>
   map_option ws_listeners (ws (run [Unsubscribe_all, Destroy] (live_endpoint Node True))) =
     Some [(''open'', True), (''error'', True), (''close'', True), (''message'', False)]"
    by (simp add: onMessage_def run_def step_def live_endpoint_eq removeAllListeners_def
        destroy_def emit_with_def subscribers_def ws_close_def OPEN_def CLOSED_def CLOSING_def)
  have 3: "onMessage (Text_data (Some (JNum 5))) (live_endpoint Node True) =
     (Inr (), (live_endpoint Node True)\<lparr>console := [''incoming'', ''Invalid message received'']\<rparr>)"
    by (simp add: onMessage_def live_endpoint_eq destructure_def field_def dbg_def)
  from 1 2 3 show ?thesis by blast
qed

text \<open>
  C9, amended: the handler of a destroyed endpoint returns at once, with the state
  untouched, whatever the frame. On an endpoint that is not destroyed, a text frame that
  is not valid JSON makes the handler raise the parse exception, with the state
  untouched; a frame that parses to anything but \<^verbatim>\<open>null\<close> with no \<^verbatim>\<open>cmd\<close> field is
  discarded with just the debug notices; and the notice \<^verbatim>\<open>Invalid message received\<close> is
  logged for no other text frame.
\<close>

theorem C9_parse_unguarded:
  "(destroyed st \<longrightarrow> (\<forall>data. onMessage data st = (Inr (), st))) \<and>
   (\<not> destroyed st \<longrightarrow>
      onMessage (Text_data None) st =
        (Inl (ErrorObj ''SyntaxError'' ''Unexpected token in JSON.'' []), st) \<and>
      (\<forall>v. v \<noteq> JNull \<and> field ''cmd'' v = None \<longrightarrow>
         onMessage (Text_data (Some v)) st =
           (Inr (), dbg ''Invalid message received'' (dbg ''incoming'' st))) \<and>
      (\<forall>parsed. console (snd (onMessage (Text_data parsed) st)) =
                   console st @ [''incoming'', ''Invalid message received''] \<longrightarrow>
         (\<exists>v. parsed = Some v \<and> v \<noteq> JNull \<and> field ''cmd'' v = None)))"
proof -
  have 0: "onMessage data st = (Inr (), st)" if "destroyed st" for data
    using that by (rule onMessage_destroyed)
  have 1: "onMessage (Text_data None) st =
      (Inl (ErrorObj ''SyntaxError'' ''Unexpected token in JSON.'' []), st)"
    if "\<not> destroyed st"
    using that by (simp add: onMessage_def)
  have 2: "onMessage (Text_data (Some v)) st =
      (Inr (), dbg ''Invalid message received'' (dbg ''incoming'' st))"
    if "\<not> destroyed st" and "v \<noteq> JNull \<and> field ''cmd'' v = None" for v
    using that by (simp add: onMessage_def destructure_def)
  have 3: "\<exists>v. parsed = Some v \<and> v \<noteq> JNull \<and> field ''cmd'' v = None"
    if nd: "\<not> destroyed st"
      and c: "console (snd (onMessage (Text_data parsed) st)) =
        console st @ [''incoming'', ''Invalid message received'']" for parsed
  proof (cases parsed)
    case None
    with c nd show ?thesis by (simp add: onMessage_def)
  next
    case (Some v)
    show ?thesis
    proof (cases "v = JNull")
      case True
      with c nd Some show ?thesis by (simp add: onMessage_def destructure_def)
    next
      case False
      show ?thesis
      proof (cases "field ''cmd'' v")
        case None
        with False Some show ?thesis by simp
      next
        case (Some cm)
        let ?s = "dbg ''incoming'' st"
        have i: "console ?s = console st \<or> console ?s = console st @ [''incoming'']"
          by (simp add: dbg_def)
        have "onMessage (Text_data parsed) st =
            (if is_reply_tag cm then on_reply cm (field ''payload'' v) (field ''id'' v) ?s
             else on_command cm (field ''payload'' v) (field ''id'' v) ?s)"
          using nd False Some \<open>parsed = Some v\<close> by (simp add: onMessage_def destructure_def)
        with c i console_on_reply [of cm "field ''payload'' v" "field ''id'' v" ?s]
          console_on_command [of cm "field ''payload'' v" "field ''id'' v" ?s]
        show ?thesis by (auto split: if_splits)
      qed
    qed
  qed
  from 0 1 2 3 show ?thesis by blast
qed

theorem C9_parse_unguarded_witness:
  "\<not> destroyed (live_endpoint Browser True) \<and>
   onMessage (Text_data None) (live_endpoint Browser True) =
     (Inl (ErrorObj ''SyntaxError'' ''Unexpected token in JSON.'' []), live_endpoint Browser True) \<and>
   JObj [(''id'', JNum 2)] \<noteq> JNull \<and> field ''cmd'' (JObj [(''id'', JNum 2)]) = None \<and>
   console (snd (onMessage (Text_data (Some (JObj [(''id'', JNum 2)]))) (live_endpoint Browser True))) =
     [''incoming'', ''Invalid message received''] \<and>
   destroyed (destroy (live_endpoint Browser True)) \<and>
   onMessage (Text_data None) (destroy (live_endpoint Browser True)) =
     (Inr (), destroy (live_endpoint Browser True))"
proof -
  have a: "\<not> destroyed (live_endpoint Browser True)" "debug (live_endpoint Browser True)"
    "console (live_endpoint Browser True) = []"
    by (simp_all add: live_endpoint_eq)
  have f: "JObj [(''id'', JNum 2)] \<noteq> JNull \<and> field ''cmd'' (JObj [(''id'', JNum 2)]) = None"
    by (simp add: field_def)
  from C9_parse_unguarded [of "live_endpoint Browser True"] a(1) f
  have "onMessage (Text_data None) (live_endpoint Browser True) =
      (Inl (ErrorObj ''SyntaxError'' ''Unexpected token in JSON.'' []), live_endpoint Browser True)"
    and "onMessage (Text_data (Some (JObj [(''id'', JNum 2)]))) (live_endpoint Browser True) =
      (Inr (), dbg ''Invalid message received'' (dbg ''incoming'' (live_endpoint Browser True)))"
    by blast+
  moreover from C9_parse_unguarded [of "destroy (live_endpoint Browser True)"]
  have "onMessage (Text_data None) (destroy (live_endpoint Browser True)) =
     (Inr (), destroy (live_endpoint Browser True))"
    by simp
  ultimately show ?thesis using a f by (simp add: dbg_def)
qed

section \<open>Destroying an endpoint with requests pending\<close>

text \<open>
  C10. On an endpoint reached from a new one, take any entry of the pending-request map
  (an endpoint that holds one has not been destroyed yet). \<^verbatim>\<open>destroy\<close> empties the map and leaves every timer and every
  promise as it was. From then on, whatever happens (a reply for the id included), the
  entry's promise is pending with its timer armed, or rejected with the timeout error the
  timer carries: it is never resolved. Once the timer fires the promise is rejected with
  that error, and stays so.
\<close>

theorem C10_destroy_leaves_timeouts:
  fixes h :: host and d :: bool and b :: "string option" and doc :: bool
    and before :: "op list"
  defines "st \<equiv> run before (new_endpoint h d b doc)"
  assumes "(n, a) \<in> set (awaitingReply st)"
  shows "awaitingReply (destroy st) = [] \<and> timers (destroy st) = timers st \<and>
     promises (destroy st) = promises st \<and>
     (\<exists>cm ms. t_handler (timers st ! a_timer a) = Reject_promise (a_promise a) \<and>
        t_args (timers st ! a_timer a) = [timeout_error cm ms] \<and>
        (\<forall>ops. (promises (run ops (destroy st)) ! a_promise a = Pending \<and>
                 t_status (timers (run ops (destroy st)) ! a_timer a) = Armed) \<or>
                promises (run ops (destroy st)) ! a_promise a = Rejected (timeout_error cm ms)) \<and>
        (\<forall>ops later. promises (run (ops @ [Fire (a_timer a)] @ later) (destroy st)) ! a_promise a =
                Rejected (timeout_error cm ms)))"
proof -
  have c: "consistent st" unfolding st_def by (rule consistent_reachable)
  have "tidy st" unfolding st_def by (rule tidy_reachable)
  with assms(2) have nd: "\<not> destroyed st" by (auto simp: tidy_def)
  from assms(2) have h: "a \<in> set (holders st)" by (force simp: holders_def)
  from consistent_holder [OF c h]
  have hd: "t_handler (timers st ! a_timer a) = Reject_promise (a_promise a)"
    by (simp add: holder_ok_def)
  from awaits_after_destroy [OF c nd assms(2)] obtain cm ms
    where ar: "t_args (timers st ! a_timer a) = [timeout_error cm ms]"
      and a: "awaits (destroy st) n (a_timer a) (a_promise a) (timeout_error cm ms)"
    by blast
  have r: "awaits (run ops (destroy st)) n (a_timer a) (a_promise a) (timeout_error cm ms)" for ops
    by (rule awaits_run [OF a]) simp
  have 1: "(promises (run ops (destroy st)) ! a_promise a = Pending \<and>
        t_status (timers (run ops (destroy st)) ! a_timer a) = Armed) \<or>
      promises (run ops (destroy st)) ! a_promise a = Rejected (timeout_error cm ms)" for ops
    using awaits_state [OF r [of ops]] by blast
  have 2: "promises (run (ops @ [Fire (a_timer a)] @ later) (destroy st)) ! a_promise a =
      Rejected (timeout_error cm ms)" for ops later
  proof -
    have f: "promises (run (ops @ [Fire (a_timer a)]) (destroy st)) ! a_promise a =
        Rejected (timeout_error cm ms)"
      using awaits_fire [OF r [of ops]] by (simp add: run_def step_def)
    have l: "a_promise a < length (promises (run (ops @ [Fire (a_timer a)]) (destroy st)))"
      using awaits_state [OF r [of ops]] by (simp add: run_def step_def fire_timer_promises)
    from settled_run [OF l, of later] f show ?thesis by (simp add: run_def)
  qed
  from nd have 3: "awaitingReply (destroy st) = []"
    by (simp add: awaitingReply_destroy)
  from 1 2 3 hd ar show ?thesis by auto
qed

theorem C10_destroy_leaves_timeouts_witness:
  "\<not> destroyed (run one_request (new_endpoint Node False None False)) \<and>
   (0, \<lparr>a_timer = 0, a_promise = 0\<rparr>) \<in>
      set (awaitingReply (run one_request (new_endpoint Node False None False))) \<and>
   awaitingReply (destroy (run one_request (new_endpoint Node False None False))) = [] \<and>
   promises (run ([Message (Text_data (Some (JObj [(''cmd'', JStr ''int:reply''), (''id'', JNum 0)])))]
       @ [Fire 0] @ [])
     (destroy (run one_request (new_endpoint Node False None False)))) ! 0 =
     Rejected (timeout_error ''echo'' 50)"
proof -
  let ?st = "run one_request (new_endpoint Node False None False)"
  let ?a = "\<lparr>a_timer = 0, a_promise = 0\<rparr>"
  have d: "\<not> destroyed ?st" by code_simp
  have m: "(0, ?a) \<in> set (awaitingReply ?st)" by code_simp
  have t: "t_args (timers ?st ! 0) = [timeout_error ''echo'' 50]" by code_simp
  from C10_destroy_leaves_timeouts [OF m] obtain cm ms
    where 1: "awaitingReply (destroy ?st) = []"
      and 2: "t_args (timers ?st ! a_timer ?a) = [timeout_error cm ms]"
      and 3: "\<forall>ops later. promises (run (ops @ [Fire (a_timer ?a)] @ later) (destroy ?st)) !
                a_promise ?a = Rejected (timeout_error cm ms)"
    by blast
  from 2 t have e: "timeout_error cm ms = timeout_error ''echo'' 50" by simp
  from 3 have "promises (run ([Message (Text_data (Some (JObj [(''cmd'', JStr ''int:reply''),
        (''id'', JNum 0)])))] @ [Fire (a_timer ?a)] @ []) (destroy ?st)) ! a_promise ?a =
      Rejected (timeout_error cm ms)" by blast
  with e have 4: "promises (run ([Message (Text_data (Some (JObj [(''cmd'', JStr ''int:reply''),
        (''id'', JNum 0)])))] @ [Fire 0] @ []) (destroy ?st)) ! 0 =
      Rejected (timeout_error ''echo'' 50)" by simp
  from d m 1 4 show ?thesis by blast
qed

end
